theory Spec2Isabelle
  imports Main "HOL-Library.Multiset" "HOL-Library.Product_Lexorder"
begin

section \<open>Data model of the broad phase\<close>

text \<open>
  The broad phase of Box2D-MT (\<^verbatim>\<open>b2_broad_phase.h\<close>, \<^verbatim>\<open>b2_broad_phase.cpp\<close>), as it is
  compiled without \<^verbatim>\<open>b2_dynamicTreeOfTrees\<close>.
  Values of type \<^verbatim>\<open>int32\<close> (proxy ids, the proxy count, the bounds of a range of the
  move buffer) are modelled as \<^typ>\<open>int\<close>: the code compares them and counts by one, and no
  property below depends on wrap-around. Values of type \<^verbatim>\<open>uint32\<close> (thread ids, loop
  indices into a buffer) are \<^typ>\<open>nat\<close>. A \<^verbatim>\<open>b2GrowableArray\<close> is a list; \<^verbatim>\<open>push_back\<close>
  appends, \<^verbatim>\<open>clear\<close> gives the empty list, and an index outside the array is the error
  \<open>IndexOutOfRange\<close> (the precondition violations of the code fail fast). The array
  \<^verbatim>\<open>m_perThreadData\<close> of \<^verbatim>\<open>b2_maxThreads\<close> elements is a list of that length, and a thread
  id outside it is the same error. A \<^verbatim>\<open>void*\<close> is a value of an arbitrary type \<open>'u\<close>.
\<close>

datatype error = IndexOutOfRange | InvalidProxy

record b2Pair =
  proxyIdA :: int
  proxyIdB :: int

record b2BroadPhasePerThreadData =
  m_pairBuffer :: "b2Pair list"
  m_queryProxyId :: int

record 't b2BroadPhase =
  m_tree :: 't
  m_proxyCount :: int
  m_moveBuffer :: "int list"
  m_perThreadData :: "b2BroadPhasePerThreadData list"

definition e_nullProxy :: int where
  "e_nullProxy = -1"

text \<open>
  The spatial index \<^verbatim>\<open>b2DynamicTree\<close> is not among the sources; the broad phase only calls
  it. It is a parameter: a tree state \<open>'t\<close> and the six operations the broad phase uses.
  An operation that takes the id of an existing proxy gives \<open>None\<close> when the tree rejects
  the id (its precondition fails); the broad phase then stops with \<open>InvalidProxy\<close>.
  \<^verbatim>\<open>GetUserData\<close> always returns a pointer, as its declaration in the broad phase
  documents (the null pointer for an invalid id).
  \<open>tree_Query t aabb\<close> is the sequence of proxy ids that \<^verbatim>\<open>b2DynamicTree::Query\<close> hands to
  its callback, in the order of the calls, for a callback that never asks to stop.
\<close>

record ('t, 'a, 'v, 'u) tree_ops =
  tree_CreateProxy :: "'t \<Rightarrow> 'a \<Rightarrow> 'u \<Rightarrow> int \<times> 't"
  tree_DestroyProxy :: "'t \<Rightarrow> int \<Rightarrow> 't option"
  tree_MoveProxy :: "'t \<Rightarrow> int \<Rightarrow> 'a \<Rightarrow> 'v \<Rightarrow> (bool \<times> 't) option"
  tree_GetFatAABB :: "'t \<Rightarrow> int \<Rightarrow> 'a option"
  tree_GetUserData :: "'t \<Rightarrow> int \<Rightarrow> 'u"
  tree_Query :: "'t \<Rightarrow> 'a \<Rightarrow> int list"

text \<open>
  What a call of \<^verbatim>\<open>UpdatePairs\<close> does to the outside: the reads of the tree and the
  \<^verbatim>\<open>AddPair\<close> callbacks, in program order.
\<close>

datatype ('a, 'u) event =
  CallGetFatAABB int
  | CallQuery 'a
  | CallGetUserData int
  | CallAddPair 'u 'u nat

section \<open>Construction and the move buffer\<close>

text \<open>The constructor; \<open>maxThreads\<close> is the constant \<^verbatim>\<open>b2_maxThreads\<close>.\<close>

definition b2BroadPhase_new :: "nat \<Rightarrow> 't \<Rightarrow> 't b2BroadPhase" where
  "b2BroadPhase_new maxThreads tree =
     \<lparr> m_tree = tree, m_proxyCount = 0, m_moveBuffer = [],
       m_perThreadData = replicate maxThreads \<lparr> m_pairBuffer = [], m_queryProxyId = -1 \<rparr> \<rparr>"

definition BufferMove :: "'t b2BroadPhase \<Rightarrow> int \<Rightarrow> 't b2BroadPhase" where
  "BufferMove s proxyId = s\<lparr> m_moveBuffer := m_moveBuffer s @ [proxyId] \<rparr>"

text \<open>The loop of \<^verbatim>\<open>UnBufferMove\<close>, from index \<open>i\<close> on.\<close>

function UnBufferMove_loop :: "int list \<Rightarrow> int \<Rightarrow> nat \<Rightarrow> int list" where
  "UnBufferMove_loop buf proxyId i =
     (if i < length buf
      then UnBufferMove_loop (if buf ! i = proxyId then buf[i := e_nullProxy] else buf)
             proxyId (i + 1)
      else buf)"
  by pat_completeness auto
termination
  by (relation "measure (\<lambda>(buf, proxyId, i). length buf - i)") auto

declare UnBufferMove_loop.simps [simp del]

definition UnBufferMove :: "'t b2BroadPhase \<Rightarrow> int \<Rightarrow> 't b2BroadPhase" where
  "UnBufferMove s proxyId = s\<lparr> m_moveBuffer := UnBufferMove_loop (m_moveBuffer s) proxyId 0 \<rparr>"

definition CreateProxy ::
  "('t, 'a, 'v, 'u) tree_ops \<Rightarrow> 't b2BroadPhase \<Rightarrow> 'a \<Rightarrow> 'u \<Rightarrow> int \<times> 't b2BroadPhase" where
  "CreateProxy ops s aabb userData =
     (let (proxyId, t) = tree_CreateProxy ops (m_tree s) aabb userData;
          s1 = s\<lparr> m_tree := t \<rparr>;
          s2 = s1\<lparr> m_proxyCount := m_proxyCount s1 + 1 \<rparr>;
          s3 = BufferMove s2 proxyId
      in (proxyId, s3))"

definition DestroyProxy ::
  "('t, 'a, 'v, 'u) tree_ops \<Rightarrow> 't b2BroadPhase \<Rightarrow> int \<Rightarrow> error + 't b2BroadPhase" where
  "DestroyProxy ops s proxyId =
     (let s1 = UnBufferMove s proxyId;
          s2 = s1\<lparr> m_proxyCount := m_proxyCount s1 - 1 \<rparr>
      in case tree_DestroyProxy ops (m_tree s2) proxyId of
           None \<Rightarrow> Inl InvalidProxy
         | Some t \<Rightarrow> Inr (s2\<lparr> m_tree := t \<rparr>))"

definition MoveProxy ::
  "('t, 'a, 'v, 'u) tree_ops \<Rightarrow> 't b2BroadPhase \<Rightarrow> int \<Rightarrow> 'a \<Rightarrow> 'v \<Rightarrow>
   error + 't b2BroadPhase" where
  "MoveProxy ops s proxyId aabb displacement =
     (case tree_MoveProxy ops (m_tree s) proxyId aabb displacement of
        None \<Rightarrow> Inl InvalidProxy
      | Some (buffer, t) \<Rightarrow>
          let s1 = s\<lparr> m_tree := t \<rparr>
          in if buffer then Inr (BufferMove s1 proxyId) else Inr s1)"

definition TouchProxy :: "'t b2BroadPhase \<Rightarrow> int \<Rightarrow> 't b2BroadPhase" where
  "TouchProxy s proxyId = BufferMove s proxyId"

definition GetProxyCount :: "'t b2BroadPhase \<Rightarrow> int" where
  "GetProxyCount s = m_proxyCount s"

definition GetMoveCount :: "'t b2BroadPhase \<Rightarrow> int" where
  "GetMoveCount s = int (length (m_moveBuffer s))"

definition ResetBuffers :: "'t b2BroadPhase \<Rightarrow> 't b2BroadPhase" where
  "ResetBuffers s =
     s\<lparr> m_moveBuffer := [],
        m_perThreadData := map (\<lambda>td. td\<lparr> m_pairBuffer := [] \<rparr>) (m_perThreadData s) \<rparr>"

section \<open>Pair discovery\<close>

text \<open>
  Modelled from the spec: \<^verbatim>\<open>b2Min\<close> and \<^verbatim>\<open>b2Max\<close> (of \<^verbatim>\<open>b2_math.h\<close>, not among the
  sources) give the smaller and the larger of two values.
\<close>

definition b2Min :: "int \<Rightarrow> int \<Rightarrow> int" where
  "b2Min a b = (if a < b then a else b)"

definition b2Max :: "int \<Rightarrow> int \<Rightarrow> int" where
  "b2Max a b = (if a > b then a else b)"

definition QueryCallback ::
  "b2BroadPhasePerThreadData \<Rightarrow> int \<Rightarrow> bool \<times> b2BroadPhasePerThreadData" where
  "QueryCallback td proxyId =
     (if proxyId = m_queryProxyId td then (True, td)
      else
        let pair = \<lparr> proxyIdA = b2Min proxyId (m_queryProxyId td),
                     proxyIdB = b2Max proxyId (m_queryProxyId td) \<rparr>
        in (True, td\<lparr> m_pairBuffer := m_pairBuffer td @ [pair] \<rparr>))"

text \<open>
  \<^verbatim>\<open>b2DynamicTree::Query\<close> with the per-thread data as callback: the callback runs on each
  proxy the tree visits, and the traversal stops when the callback returns false.
\<close>

fun Query_visit ::
  "int list \<Rightarrow> b2BroadPhasePerThreadData \<Rightarrow> b2BroadPhasePerThreadData" where
  "Query_visit [] td = td"
| "Query_visit (proxyId # rest) td =
     (case QueryCallback td proxyId of
        (True, td') \<Rightarrow> Query_visit rest td'
      | (False, td') \<Rightarrow> td')"

text \<open>The first loop of \<^verbatim>\<open>UpdatePairs\<close>, from index \<open>i\<close> on, with the events so far.\<close>

function UpdatePairs_queries ::
  "('t, 'a, 'v, 'u) tree_ops \<Rightarrow> 't \<Rightarrow> int list \<Rightarrow> int \<Rightarrow> int \<Rightarrow>
   b2BroadPhasePerThreadData \<Rightarrow> ('a, 'u) event list \<Rightarrow>
   error + (b2BroadPhasePerThreadData \<times> ('a, 'u) event list)" where
  "UpdatePairs_queries ops tree buf i moveEnd td evs =
     (if i < moveEnd then
        (if i < 0 \<or> int (length buf) \<le> i then Inl IndexOutOfRange
         else
           let td1 = td\<lparr> m_queryProxyId := buf ! nat i \<rparr>
           in if m_queryProxyId td1 = e_nullProxy
              then UpdatePairs_queries ops tree buf (i + 1) moveEnd td1 evs
              else
                case tree_GetFatAABB ops tree (m_queryProxyId td1) of
                  None \<Rightarrow> Inl InvalidProxy
                | Some fatAABB \<Rightarrow>
                    let td2 = Query_visit (tree_Query ops tree fatAABB) td1
                    in UpdatePairs_queries ops tree buf (i + 1) moveEnd td2
                         (evs @ [CallGetFatAABB (m_queryProxyId td1), CallQuery fatAABB]))
      else Inr (td, evs))"
  by pat_completeness auto
termination
  by (relation "measure (\<lambda>(ops, tree, buf, i, moveEnd, td, evs). nat (moveEnd - i))") auto

declare UpdatePairs_queries.simps [simp del]

definition b2PairLessThan :: "b2Pair \<Rightarrow> b2Pair \<Rightarrow> bool" where
  "b2PairLessThan pair1 pair2 =
     (if proxyIdA pair1 < proxyIdA pair2 then True
      else if proxyIdA pair1 = proxyIdA pair2 then proxyIdB pair1 < proxyIdB pair2
      else False)"

text \<open>
  \<^verbatim>\<open>std::sort\<close> with a comparator. The standard fixes the result, not the algorithm: the
  result is a permutation of the input in which no element is less than an earlier one.
  Insertion from the right computes one such list; for \<open>b2PairLessThan\<close>, under which two
  different pairs are always comparable, it is the only one (\<open>std_sort_unique\<close> below).
\<close>

fun sort_insert :: "('x \<Rightarrow> 'x \<Rightarrow> bool) \<Rightarrow> 'x \<Rightarrow> 'x list \<Rightarrow> 'x list" where
  "sort_insert lt x [] = [x]"
| "sort_insert lt x (y # ys) =
     (if lt y x then y # sort_insert lt x ys else x # y # ys)"

fun std_sort :: "('x \<Rightarrow> 'x \<Rightarrow> bool) \<Rightarrow> 'x list \<Rightarrow> 'x list" where
  "std_sort lt [] = []"
| "std_sort lt (x # xs) = sort_insert lt x (std_sort lt xs)"

text \<open>The inner loop of the report: skip the pairs equal to the primary pair.\<close>

function skip_duplicates :: "b2Pair list \<Rightarrow> b2Pair \<Rightarrow> nat \<Rightarrow> nat" where
  "skip_duplicates buf primaryPair i =
     (if i < length buf then
        (if proxyIdA (buf ! i) \<noteq> proxyIdA primaryPair \<or> proxyIdB (buf ! i) \<noteq> proxyIdB primaryPair
         then i
         else skip_duplicates buf primaryPair (i + 1))
      else i)"
  by pat_completeness auto
termination
  by (relation "measure (\<lambda>(buf, primaryPair, i). length buf - i)") auto

declare skip_duplicates.simps [simp del]

lemma skip_duplicates_ge: "i \<le> skip_duplicates buf p i"
proof (induction buf p i rule: skip_duplicates.induct)
  case (1 buf primaryPair i)
  show ?case
  proof (cases "i < length buf \<and> \<not> (proxyIdA (buf ! i) \<noteq> proxyIdA primaryPair \<or>
                  proxyIdB (buf ! i) \<noteq> proxyIdB primaryPair)")
    case True
    then have "i + 1 \<le> skip_duplicates buf primaryPair (i + 1)"
      using "1.IH" by simp
    then show ?thesis
      using True by (subst skip_duplicates.simps) simp
  next
    case False
    then show ?thesis
      by (subst skip_duplicates.simps) auto
  qed
qed

text \<open>The second loop of \<^verbatim>\<open>UpdatePairs\<close>: send the pairs back to the client.\<close>

function UpdatePairs_report ::
  "('t, 'a, 'v, 'u) tree_ops \<Rightarrow> 't \<Rightarrow> b2Pair list \<Rightarrow> nat \<Rightarrow> nat \<Rightarrow> ('a, 'u) event list" where
  "UpdatePairs_report ops tree buf threadId i =
     (if i < length buf then
        let primaryPair = buf ! i;
            userDataA = tree_GetUserData ops tree (proxyIdA primaryPair);
            userDataB = tree_GetUserData ops tree (proxyIdB primaryPair)
        in [CallGetUserData (proxyIdA primaryPair), CallGetUserData (proxyIdB primaryPair),
            CallAddPair userDataA userDataB threadId]
           @ UpdatePairs_report ops tree buf threadId (skip_duplicates buf primaryPair (i + 1))
      else [])"
  by pat_completeness auto
termination
  apply (relation "measure (\<lambda>(ops, tree, buf, threadId, i). length buf - i)")
   apply simp
  subgoal for ops tree buf threadId i x xa xb
    using skip_duplicates_ge [of "i + 1" buf x] by simp
  done

declare UpdatePairs_report.simps [simp del]

definition UpdatePairs ::
  "('t, 'a, 'v, 'u) tree_ops \<Rightarrow> 't b2BroadPhase \<Rightarrow> int \<Rightarrow> int \<Rightarrow> nat \<Rightarrow>
   error + ('t b2BroadPhase \<times> ('a, 'u) event list)" where
  "UpdatePairs ops s moveBegin moveEnd threadId =
     (if length (m_perThreadData s) \<le> threadId then Inl IndexOutOfRange
      else
        case UpdatePairs_queries ops (m_tree s) (m_moveBuffer s) moveBegin moveEnd
               (m_perThreadData s ! threadId) [] of
          Inl e \<Rightarrow> Inl e
        | Inr (td, evs) \<Rightarrow>
            let td' = td\<lparr> m_pairBuffer := std_sort b2PairLessThan (m_pairBuffer td) \<rparr>
            in Inr (s\<lparr> m_perThreadData := (m_perThreadData s)[threadId := td'] \<rparr>,
                    evs @ UpdatePairs_report ops (m_tree s) (m_pairBuffer td') threadId 0))"

text \<open>
  \<^verbatim>\<open>b2BroadPhase::Query\<close> hands the callback and the box to the tree and ignores the
  thread id. Its result here is the sequence of proxies the callback is called with,
  when the callback never asks to stop.
\<close>

definition Query :: "('t, 'a, 'v, 'u) tree_ops \<Rightarrow> 't b2BroadPhase \<Rightarrow> 'a \<Rightarrow> nat \<Rightarrow> int list" where
  "Query ops s aabb threadId = tree_Query ops (m_tree s) aabb"

section \<open>The spatial index, from its contract\<close>

text \<open>
  Modelled from the spec: the spatial index \<^verbatim>\<open>b2DynamicTree\<close> is not among the sources.
  Its contract: \<^verbatim>\<open>CreateProxy(aabb, userData)\<close> returns an id and stores the fattened box;
  \<^verbatim>\<open>DestroyProxy(id)\<close> removes the proxy; \<^verbatim>\<open>MoveProxy(id, aabb, displacement)\<close> returns
  whether the fattened box needed updating, and updates nothing when the tight box is
  still contained in the current fat box; \<^verbatim>\<open>Query(callback, aabb)\<close> visits every proxy whose
  fat box overlaps \<^verbatim>\<open>aabb\<close>; an id that names no proxy is a precondition violation.
  The model is the list of the live proxies, each with its id, its fat box and its user
  data, in the order of creation. The geometry of boxes (the overlap and containment
  tests, the two ways of fattening) is a parameter. A new proxy gets an id that no live
  proxy has. \<^verbatim>\<open>GetUserData\<close> of an id that names no proxy is the null pointer \<open>None\<close>.
\<close>

record ('a, 'v) geometry =
  geo_overlap :: "'a \<Rightarrow> 'a \<Rightarrow> bool"
  geo_contains :: "'a \<Rightarrow> 'a \<Rightarrow> bool"
  geo_fatten :: "'a \<Rightarrow> 'a"
  geo_fatten_moved :: "'a \<Rightarrow> 'v \<Rightarrow> 'a"

type_synonym ('a, 'w) spec_tree = "(int \<times> 'a \<times> 'w option) list"

definition spec_fresh :: "('a, 'w) spec_tree \<Rightarrow> int" where
  "spec_fresh t = fold max (map fst t) (-1) + 1"

definition spec_CreateProxy ::
  "('a, 'v) geometry \<Rightarrow> ('a, 'w) spec_tree \<Rightarrow> 'a \<Rightarrow> 'w option \<Rightarrow> int \<times> ('a, 'w) spec_tree" where
  "spec_CreateProxy G t aabb userData =
     (spec_fresh t, t @ [(spec_fresh t, geo_fatten G aabb, userData)])"

definition spec_DestroyProxy :: "('a, 'w) spec_tree \<Rightarrow> int \<Rightarrow> ('a, 'w) spec_tree option" where
  "spec_DestroyProxy t proxyId =
     (case map_of t proxyId of
        None \<Rightarrow> None
      | Some _ \<Rightarrow> Some (filter (\<lambda>p. fst p \<noteq> proxyId) t))"

definition spec_MoveProxy ::
  "('a, 'v) geometry \<Rightarrow> ('a, 'w) spec_tree \<Rightarrow> int \<Rightarrow> 'a \<Rightarrow> 'v \<Rightarrow>
   (bool \<times> ('a, 'w) spec_tree) option" where
  "spec_MoveProxy G t proxyId aabb displacement =
     (case map_of t proxyId of
        None \<Rightarrow> None
      | Some (fat, userData) \<Rightarrow>
          if geo_contains G fat aabb then Some (False, t)
          else Some (True,
                 map (\<lambda>p. if fst p = proxyId
                          then (proxyId, geo_fatten_moved G aabb displacement, userData)
                          else p) t))"

definition spec_GetFatAABB :: "('a, 'w) spec_tree \<Rightarrow> int \<Rightarrow> 'a option" where
  "spec_GetFatAABB t proxyId = map_option fst (map_of t proxyId)"

definition spec_GetUserData :: "('a, 'w) spec_tree \<Rightarrow> int \<Rightarrow> 'w option" where
  "spec_GetUserData t proxyId = (case map_of t proxyId of None \<Rightarrow> None | Some (fat, userData) \<Rightarrow> userData)"

definition spec_Query :: "('a, 'v) geometry \<Rightarrow> ('a, 'w) spec_tree \<Rightarrow> 'a \<Rightarrow> int list" where
  "spec_Query G t aabb = map fst (filter (\<lambda>p. geo_overlap G (fst (snd p)) aabb) t)"

definition spec_tree_ops ::
  "('a, 'v) geometry \<Rightarrow> (('a, 'w) spec_tree, 'a, 'v, 'w option) tree_ops" where
  "spec_tree_ops G =
     \<lparr> tree_CreateProxy = spec_CreateProxy G,
       tree_DestroyProxy = spec_DestroyProxy,
       tree_MoveProxy = spec_MoveProxy G,
       tree_GetFatAABB = spec_GetFatAABB,
       tree_GetUserData = spec_GetUserData,
       tree_Query = spec_Query G \<rparr>"

text \<open>
  A geometry to run the definitions on: boxes are integer intervals \<open>(lower, upper)\<close>, the
  margin is one, and a moved box is also extended by the displacement in its direction.
\<close>

definition interval_geometry :: "(int \<times> int, int) geometry" where
  "interval_geometry =
     \<lparr> geo_overlap = (\<lambda>a b. \<not> fst b - snd a > 0 \<and> \<not> fst a - snd b > 0),
       geo_contains = (\<lambda>a b. fst a \<le> fst b \<and> snd b \<le> snd a),
       geo_fatten = (\<lambda>a. (fst a - 1, snd a + 1)),
       geo_fatten_moved = (\<lambda>a d. if d < 0 then (fst a - 1 + d, snd a + 1)
                                 else (fst a - 1, snd a + 1 + d)) \<rparr>"

section \<open>The contact array of the contact manager\<close>

text \<open>
  From \<^verbatim>\<open>b2_contact_manager.h\<close>: the flat contact array \<^verbatim>\<open>m_contacts\<close>, the count
  \<^verbatim>\<open>m_toiCount\<close> and the three accessors of the partition. A contact is a value of an
  arbitrary type \<open>'c\<close> (the code holds pointers). A pointer into the array is the index it
  points at, so \<^verbatim>\<open>m_contacts.begin()\<close> is index 0. \<^verbatim>\<open>GetNonToiCount\<close> subtracts in
  \<^verbatim>\<open>uint32\<close>; the wrap-around is written out. \<open>toiCandidate\<close> is the eligibility flag of
  each contact, a field of \<^verbatim>\<open>b2Contact\<close>.
\<close>

record 'c b2ContactManager =
  m_contacts :: "'c list"
  m_toiCount :: nat
  toiCandidate :: "'c \<Rightarrow> bool"

definition b2ContactManager_new :: "'c b2ContactManager" where
  "b2ContactManager_new = \<lparr> m_contacts = [], m_toiCount = 0, toiCandidate = (\<lambda>c. False) \<rparr>"

definition GetToiBegin :: "'c b2ContactManager \<Rightarrow> nat" where
  "GetToiBegin s = 0"

definition GetNonToiBegin :: "'c b2ContactManager \<Rightarrow> nat" where
  "GetNonToiBegin s = 0 + m_toiCount s"

definition GetNonToiCount :: "'c b2ContactManager \<Rightarrow> nat" where
  "GetNonToiCount s = (length (m_contacts s) + 2 ^ 32 - m_toiCount s) mod 2 ^ 32"

text \<open>
  Modelled from the spec: the operations that change the contact array
  (\<^verbatim>\<open>AddToContactArray\<close>, \<^verbatim>\<open>RemoveFromContactArray\<close> and \<^verbatim>\<open>RecalculateToiCandidacy\<close> of a
  contact) are declared in \<^verbatim>\<open>b2_contact_manager.h\<close>, but their bodies and the class
  \<^verbatim>\<open>b2Contact\<close> are not among the sources. The spec says: creation links the contact into
  the flat array and places it by its eligibility; destruction removes it with a
  swap-with-last-and-truncate, adjusting the partition boundary if the removed element
  was on either side of it; \<^verbatim>\<open>RecalculateToiCandidacy\<close> moves a contact across the
  boundary by swapping it with the element at the boundary. Adjusting the boundary on
  removal is read as that same move: an eligible contact is first swapped with the last
  eligible one and the boundary is lowered, then it is swapped with the last element
  and the array is truncated. A contact is found in the array by search. Adding a
  contact that is in the array, and removing or recalculating one that is not, are
  precondition violations.
\<close>

datatype contact_error = NotInContactArray | AlreadyInContactArray

definition swap_contacts :: "nat \<Rightarrow> nat \<Rightarrow> 'c list \<Rightarrow> 'c list" where
  "swap_contacts i j xs = xs[i := xs ! j, j := xs ! i]"

fun index_of :: "'c \<Rightarrow> 'c list \<Rightarrow> nat" where
  "index_of c [] = 0"
| "index_of c (x # xs) = (if x = c then 0 else Suc (index_of c xs))"

definition AddToContactArray ::
  "'c b2ContactManager \<Rightarrow> 'c \<Rightarrow> bool \<Rightarrow> contact_error + 'c b2ContactManager" where
  "AddToContactArray s c eligible =
     (if c \<in> set (m_contacts s) then Inl AlreadyInContactArray
      else
        let xs = m_contacts s @ [c];
            s1 = s\<lparr> m_contacts := xs, toiCandidate := (toiCandidate s)(c := eligible) \<rparr>
        in if eligible
           then Inr (s1\<lparr> m_contacts := swap_contacts (m_toiCount s) (length xs - 1) xs,
                         m_toiCount := m_toiCount s + 1 \<rparr>)
           else Inr s1)"

definition RemoveFromContactArray ::
  "'c b2ContactManager \<Rightarrow> 'c \<Rightarrow> contact_error + 'c b2ContactManager" where
  "RemoveFromContactArray s c =
     (if c \<notin> set (m_contacts s) then Inl NotInContactArray
      else
        let xs = m_contacts s; i = index_of c xs
        in if i < m_toiCount s
           then
             let xs1 = swap_contacts i (m_toiCount s - 1) xs;
                 xs2 = swap_contacts (m_toiCount s - 1) (length xs - 1) xs1
             in Inr (s\<lparr> m_contacts := butlast xs2, m_toiCount := m_toiCount s - 1 \<rparr>)
           else Inr (s\<lparr> m_contacts := butlast (swap_contacts i (length xs - 1) xs) \<rparr>))"

definition RecalculateToiCandidacy ::
  "'c b2ContactManager \<Rightarrow> 'c \<Rightarrow> bool \<Rightarrow> contact_error + 'c b2ContactManager" where
  "RecalculateToiCandidacy s c eligible =
     (if c \<notin> set (m_contacts s) then Inl NotInContactArray
      else if toiCandidate s c = eligible then Inr s
      else
        let xs = m_contacts s; i = index_of c xs
        in if eligible
           then Inr (s\<lparr> m_contacts := swap_contacts i (m_toiCount s) xs,
                        m_toiCount := m_toiCount s + 1,
                        toiCandidate := (toiCandidate s)(c := True) \<rparr>)
           else Inr (s\<lparr> m_contacts := swap_contacts i (m_toiCount s - 1) xs,
                        m_toiCount := m_toiCount s - 1,
                        toiCandidate := (toiCandidate s)(c := False) \<rparr>))"

section \<open>Notions used to state the properties\<close>

text \<open>
  The sort key of a pair: \<open>b2PairLessThan\<close> is the lexicographic order of the keys.
\<close>

definition pair_key :: "b2Pair \<Rightarrow> int \<times> int" where
  "pair_key p = (proxyIdA p, proxyIdB p)"

text \<open>The events of reporting one pair: two reads of user data, then the callback.\<close>

definition report_events ::
  "('t, 'a, 'v, 'u) tree_ops \<Rightarrow> 't \<Rightarrow> nat \<Rightarrow> b2Pair \<Rightarrow> ('a, 'u) event list" where
  "report_events ops tree threadId p =
     [CallGetUserData (proxyIdA p), CallGetUserData (proxyIdB p),
      CallAddPair (tree_GetUserData ops tree (proxyIdA p))
        (tree_GetUserData ops tree (proxyIdB p)) threadId]"

text \<open>
  The slots \<open>[moveBegin, moveEnd)\<close> of the move buffer, the proxy ids among them that are not
  the null proxy, the pairs that one query adds to the pair buffer, the pairs and the
  events of one moved proxy, and the conditions under which the first loop of
  \<^verbatim>\<open>UpdatePairs\<close> returns: the range lies in the buffer and the tree knows every queried id.
\<close>

definition move_range :: "int list \<Rightarrow> int \<Rightarrow> int \<Rightarrow> int list" where
  "move_range buf moveBegin moveEnd = take (nat (moveEnd - moveBegin)) (drop (nat moveBegin) buf)"

definition moved_proxies :: "int list \<Rightarrow> int \<Rightarrow> int \<Rightarrow> int list" where
  "moved_proxies buf moveBegin moveEnd =
     filter (\<lambda>q. q \<noteq> e_nullProxy) (move_range buf moveBegin moveEnd)"

definition query_pairs :: "int \<Rightarrow> int list \<Rightarrow> b2Pair list" where
  "query_pairs q visited =
     map (\<lambda>p. \<lparr> proxyIdA = b2Min p q, proxyIdB = b2Max p q \<rparr>) (filter (\<lambda>p. p \<noteq> q) visited)"

definition proxy_pairs :: "('t, 'a, 'v, 'u) tree_ops \<Rightarrow> 't \<Rightarrow> int \<Rightarrow> b2Pair list" where
  "proxy_pairs ops tree q =
     (case tree_GetFatAABB ops tree q of
        None \<Rightarrow> []
      | Some fatAABB \<Rightarrow> query_pairs q (tree_Query ops tree fatAABB))"

definition proxy_events :: "('t, 'a, 'v, 'u) tree_ops \<Rightarrow> 't \<Rightarrow> int \<Rightarrow> ('a, 'u) event list" where
  "proxy_events ops tree q =
     (case tree_GetFatAABB ops tree q of
        None \<Rightarrow> []
      | Some fatAABB \<Rightarrow> [CallGetFatAABB q, CallQuery fatAABB])"

definition range_ok :: "int list \<Rightarrow> int \<Rightarrow> int \<Rightarrow> bool" where
  "range_ok buf moveBegin moveEnd =
     (moveBegin < moveEnd \<longrightarrow> 0 \<le> moveBegin \<and> moveEnd \<le> int (length buf))"

definition proxies_ok :: "('t, 'a, 'v, 'u) tree_ops \<Rightarrow> 't \<Rightarrow> int list \<Rightarrow> bool" where
  "proxies_ok ops tree qs = list_all (\<lambda>q. tree_GetFatAABB ops tree q \<noteq> None) qs"

text \<open>
  The pairs that the first loop adds for a range of the move buffer, and its events.
\<close>

definition discovered :: "('t, 'a, 'v, 'u) tree_ops \<Rightarrow> 't \<Rightarrow> int list \<Rightarrow> int \<Rightarrow> int \<Rightarrow> b2Pair list" where
  "discovered ops tree buf moveBegin moveEnd =
     concat (map (proxy_pairs ops tree) (moved_proxies buf moveBegin moveEnd))"

definition query_trace ::
  "('t, 'a, 'v, 'u) tree_ops \<Rightarrow> 't \<Rightarrow> int list \<Rightarrow> int \<Rightarrow> int \<Rightarrow> ('a, 'u) event list" where
  "query_trace ops tree buf moveBegin moveEnd =
     concat (map (proxy_events ops tree) (moved_proxies buf moveBegin moveEnd))"

text \<open>
  Projections of a trace: the ids whose user data was read, these ids taken two by two
  (\<^verbatim>\<open>UpdatePairs\<close> reads the user data of \<open>proxyIdA\<close> and of \<open>proxyIdB\<close> before each
  callback, so these are the pairs behind the callbacks), the arguments of the
  \<^verbatim>\<open>AddPair\<close> callbacks, the ids whose fat box was read, and the boxes the tree was
  queried with.
\<close>

fun user_data_reads :: "('a, 'u) event list \<Rightarrow> int list" where
  "user_data_reads [] = []"
| "user_data_reads (CallGetUserData proxyId # evs) = proxyId # user_data_reads evs"
| "user_data_reads (ev # evs) = user_data_reads evs"

fun pair_up :: "int list \<Rightarrow> b2Pair list" where
  "pair_up (a # b # rest) = \<lparr> proxyIdA = a, proxyIdB = b \<rparr> # pair_up rest"
| "pair_up rest = []"

definition reported_pairs :: "('a, 'u) event list \<Rightarrow> b2Pair list" where
  "reported_pairs evs = pair_up (user_data_reads evs)"

fun addpair_calls :: "('a, 'u) event list \<Rightarrow> ('u \<times> 'u \<times> nat) list" where
  "addpair_calls [] = []"
| "addpair_calls (CallAddPair userDataA userDataB threadId # evs) =
     (userDataA, userDataB, threadId) # addpair_calls evs"
| "addpair_calls (ev # evs) = addpair_calls evs"

fun fat_reads :: "('a, 'u) event list \<Rightarrow> int list" where
  "fat_reads [] = []"
| "fat_reads (CallGetFatAABB proxyId # evs) = proxyId # fat_reads evs"
| "fat_reads (ev # evs) = fat_reads evs"

fun tree_queries :: "('a, 'u) event list \<Rightarrow> 'a list" where
  "tree_queries [] = []"
| "tree_queries (CallQuery aabb # evs) = aabb # tree_queries evs"
| "tree_queries (ev # evs) = tree_queries evs"

fun is_AddPair :: "('a, 'u) event \<Rightarrow> bool" where
  "is_AddPair (CallAddPair userDataA userDataB threadId) = True"
| "is_AddPair ev = False"

text \<open>
  A trace in which reporting is a step of its own after all discovery: from the first
  \<^verbatim>\<open>AddPair\<close> callback on, the tree is not read any more.
\<close>

definition reports_after_all_queries :: "('a, 'u) event list \<Rightarrow> bool" where
  "reports_after_all_queries evs =
     (fat_reads (dropWhile (\<lambda>ev. \<not> is_AddPair ev) evs) = [] \<and>
      tree_queries (dropWhile (\<lambda>ev. \<not> is_AddPair ev) evs) = [])"

text \<open>
  The pair buffer of a thread after a call, and the condition under which the call
  returns: the thread exists, the range lies in the move buffer, and the tree knows
  every proxy of the range that is not the null proxy.
\<close>

definition sorted_buffer ::
  "('t, 'a, 'v, 'u) tree_ops \<Rightarrow> 't b2BroadPhase \<Rightarrow> int \<Rightarrow> int \<Rightarrow> nat \<Rightarrow> b2Pair list" where
  "sorted_buffer ops s moveBegin moveEnd threadId =
     std_sort b2PairLessThan
       (m_pairBuffer (m_perThreadData s ! threadId)
        @ discovered ops (m_tree s) (m_moveBuffer s) moveBegin moveEnd)"

definition UpdatePairs_ok ::
  "('t, 'a, 'v, 'u) tree_ops \<Rightarrow> 't b2BroadPhase \<Rightarrow> int \<Rightarrow> int \<Rightarrow> nat \<Rightarrow> bool" where
  "UpdatePairs_ok ops s moveBegin moveEnd threadId =
     (threadId < length (m_perThreadData s) \<and>
      range_ok (m_moveBuffer s) moveBegin moveEnd \<and>
      proxies_ok ops (m_tree s) (moved_proxies (m_moveBuffer s) moveBegin moveEnd))"

text \<open>
  The invariant of the pair buffers: every pair in them has \<open>proxyIdA < proxyIdB\<close>. It
  holds after construction and after \<^verbatim>\<open>ResetBuffers\<close>, and every operation keeps it.
\<close>

definition pairs_canonical :: "'t b2BroadPhase \<Rightarrow> bool" where
  "pairs_canonical s =
     list_all (\<lambda>td. list_all (\<lambda>p. proxyIdA p < proxyIdB p) (m_pairBuffer td)) (m_perThreadData s)"

text \<open>
  The parallel phase, as its caller \<^verbatim>\<open>b2ContactManager::FindNewContacts\<close> is declared to
  use it: thread \<open>k\<close> calls \<^verbatim>\<open>UpdatePairs\<close> on the \<open>k\<close>-th range with its own thread id. The
  calls are run one after the other, thread 0 first; a call reads the tree and the move
  buffer and writes only the data of its own thread. \<open>consecutive b ranges e\<close> says that
  the ranges partition \<open>[b, e)\<close> in order. \<open>threads_pairs\<close> and \<open>threads_events\<close> are the
  pairs reported and the events of such a run from empty pair buffers.
\<close>

fun UpdatePairs_threads ::
  "('t, 'a, 'v, 'u) tree_ops \<Rightarrow> 't b2BroadPhase \<Rightarrow> nat \<Rightarrow> (int \<times> int) list \<Rightarrow>
   error + ('t b2BroadPhase \<times> ('a, 'u) event list)" where
  "UpdatePairs_threads ops s threadId [] = Inr (s, [])"
| "UpdatePairs_threads ops s threadId ((moveBegin, moveEnd) # ranges) =
     (case UpdatePairs ops s moveBegin moveEnd threadId of
        Inl err \<Rightarrow> Inl err
      | Inr (s1, evs1) \<Rightarrow>
          (case UpdatePairs_threads ops s1 (threadId + 1) ranges of
             Inl err \<Rightarrow> Inl err
           | Inr (s2, evs2) \<Rightarrow> Inr (s2, evs1 @ evs2)))"

definition events_of :: "error + ('s \<times> ('a, 'u) event list) \<Rightarrow> ('a, 'u) event list" where
  "events_of r = (case r of Inl err \<Rightarrow> [] | Inr (s, evs) \<Rightarrow> evs)"

fun consecutive :: "int \<Rightarrow> (int \<times> int) list \<Rightarrow> int \<Rightarrow> bool" where
  "consecutive b [] e = (b = e)"
| "consecutive b ((moveBegin, moveEnd) # ranges) e =
     (moveBegin = b \<and> b \<le> moveEnd \<and> consecutive moveEnd ranges e)"

fun threads_pairs ::
  "('t, 'a, 'v, 'u) tree_ops \<Rightarrow> 't \<Rightarrow> int list \<Rightarrow> (int \<times> int) list \<Rightarrow> b2Pair list" where
  "threads_pairs ops tree buf [] = []"
| "threads_pairs ops tree buf ((moveBegin, moveEnd) # ranges) =
     remdups_adj (std_sort b2PairLessThan (discovered ops tree buf moveBegin moveEnd))
     @ threads_pairs ops tree buf ranges"

fun threads_events ::
  "('t, 'a, 'v, 'u) tree_ops \<Rightarrow> 't \<Rightarrow> int list \<Rightarrow> nat \<Rightarrow> (int \<times> int) list \<Rightarrow>
   ('a, 'u) event list" where
  "threads_events ops tree buf threadId [] = []"
| "threads_events ops tree buf threadId ((moveBegin, moveEnd) # ranges) =
     (query_trace ops tree buf moveBegin moveEnd
      @ concat (map (report_events ops tree threadId)
          (remdups_adj (std_sort b2PairLessThan (discovered ops tree buf moveBegin moveEnd)))))
     @ threads_events ops tree buf (threadId + 1) ranges"

text \<open>
  Sequences of operations on the broad phase, run next to a brute-force record of the
  live proxies: the map from the id of each proxy that was created and not destroyed
  since to its current fat box. \<open>scan_agrees\<close> relates the tree to that record.
\<close>

datatype ('a, 'v, 'u) proxy_op =
  OpCreate 'a 'u
  | OpMove int 'a 'v
  | OpDestroy int
  | OpTouch int

fun scan_step ::
  "('a, 'v) geometry \<Rightarrow> ('a, 'w) spec_tree b2BroadPhase \<times> (int \<rightharpoonup> 'a) \<Rightarrow>
   ('a, 'v, 'w option) proxy_op \<Rightarrow>
   error + (('a, 'w) spec_tree b2BroadPhase \<times> (int \<rightharpoonup> 'a))" where
  "scan_step G (s, live) (OpCreate aabb userData) =
     (let (proxyId, s') = CreateProxy (spec_tree_ops G) s aabb userData
      in Inr (s', live(proxyId \<mapsto> geo_fatten G aabb)))"
| "scan_step G (s, live) (OpMove proxyId aabb displacement) =
     (case MoveProxy (spec_tree_ops G) s proxyId aabb displacement of
        Inl err \<Rightarrow> Inl err
      | Inr s' \<Rightarrow>
          Inr (s', case live proxyId of
                     None \<Rightarrow> live
                   | Some fat \<Rightarrow>
                       if geo_contains G fat aabb then live
                       else live(proxyId \<mapsto> geo_fatten_moved G aabb displacement)))"
| "scan_step G (s, live) (OpDestroy proxyId) =
     (case DestroyProxy (spec_tree_ops G) s proxyId of
        Inl err \<Rightarrow> Inl err
      | Inr s' \<Rightarrow> Inr (s', live(proxyId := None)))"
| "scan_step G (s, live) (OpTouch proxyId) = Inr (TouchProxy s proxyId, live)"

fun scan_run ::
  "('a, 'v) geometry \<Rightarrow> ('a, 'w) spec_tree b2BroadPhase \<times> (int \<rightharpoonup> 'a) \<Rightarrow>
   ('a, 'v, 'w option) proxy_op list \<Rightarrow>
   error + (('a, 'w) spec_tree b2BroadPhase \<times> (int \<rightharpoonup> 'a))" where
  "scan_run G c [] = Inr c"
| "scan_run G c (op # rest) =
     (case scan_step G c op of Inl err \<Rightarrow> Inl err | Inr c' \<Rightarrow> scan_run G c' rest)"

definition scan_agrees :: "('a, 'w) spec_tree \<Rightarrow> (int \<rightharpoonup> 'a) \<Rightarrow> bool" where
  "scan_agrees t live =
     (distinct (map fst t) \<and> (\<forall>proxyId. map_option fst (map_of t proxyId) = live proxyId))"

text \<open>
  Sequences of creations, destructions and eligibility changes of contacts; the set of
  live contacts and the eligibility of each contact as the sequence gives them; the
  partition of the contact array; and the agreement of the array with the sequence.
\<close>

datatype 'c contact_op = ContactCreate 'c bool | ContactDestroy 'c | ContactToggle 'c bool

fun contact_step ::
  "'c b2ContactManager \<Rightarrow> 'c contact_op \<Rightarrow> contact_error + 'c b2ContactManager" where
  "contact_step s (ContactCreate c eligible) = AddToContactArray s c eligible"
| "contact_step s (ContactDestroy c) = RemoveFromContactArray s c"
| "contact_step s (ContactToggle c eligible) = RecalculateToiCandidacy s c eligible"

fun contact_run ::
  "'c b2ContactManager \<Rightarrow> 'c contact_op list \<Rightarrow> contact_error + 'c b2ContactManager" where
  "contact_run s [] = Inr s"
| "contact_run s (op # rest) =
     (case contact_step s op of Inl err \<Rightarrow> Inl err | Inr s' \<Rightarrow> contact_run s' rest)"

fun contact_ref_step :: "'c set \<times> ('c \<Rightarrow> bool) \<Rightarrow> 'c contact_op \<Rightarrow> 'c set \<times> ('c \<Rightarrow> bool)" where
  "contact_ref_step (live, eligible) (ContactCreate c e) = (insert c live, eligible(c := e))"
| "contact_ref_step (live, eligible) (ContactDestroy c) = (live - {c}, eligible)"
| "contact_ref_step (live, eligible) (ContactToggle c e) = (live, eligible(c := e))"

definition contact_ref :: "'c contact_op list \<Rightarrow> 'c set \<times> ('c \<Rightarrow> bool)" where
  "contact_ref ops = foldl contact_ref_step ({}, \<lambda>c. False) ops"

definition toi_partitioned :: "'c b2ContactManager \<Rightarrow> bool" where
  "toi_partitioned s =
     (distinct (m_contacts s) \<and> m_toiCount s \<le> length (m_contacts s) \<and>
      list_all (toiCandidate s) (take (m_toiCount s) (m_contacts s)) \<and>
      list_all (\<lambda>c. \<not> toiCandidate s c) (drop (m_toiCount s) (m_contacts s)))"

definition contact_agrees :: "'c b2ContactManager \<Rightarrow> 'c set \<times> ('c \<Rightarrow> bool) \<Rightarrow> bool" where
  "contact_agrees s r = (set (m_contacts s) = fst r \<and> toiCandidate s = snd r)"

text \<open>Two overlapping proxies, both in the move buffer, and two threads.\<close>

definition two_proxies :: "(int \<times> int, nat) spec_tree" where
  "two_proxies = [(0, (0, 10), Some 100), (1, (5, 15), Some 101)]"

definition two_moved :: "(int \<times> int, nat) spec_tree b2BroadPhase" where
  "two_moved = (b2BroadPhase_new 2 two_proxies)\<lparr> m_proxyCount := 2, m_moveBuffer := [0, 1] \<rparr>"

text \<open>The same broad phase after \<^verbatim>\<open>DestroyProxy\<close> of proxy 0: its slot holds the null proxy.\<close>

definition after_destroy :: "(int \<times> int, nat) spec_tree b2BroadPhase" where
  "after_destroy = two_moved\<lparr> m_tree := [(1, (5, 15), Some 101)], m_proxyCount := 1,
                              m_moveBuffer := [-1, 1] \<rparr>"

text \<open>The same broad phase after \<^verbatim>\<open>CreateProxy\<close> of a third proxy, away from the two.\<close>

definition after_create :: "(int \<times> int, nat) spec_tree b2BroadPhase" where
  "after_create = two_moved\<lparr> m_tree := two_proxies @ [(2, (19, 31), Some 7)], m_proxyCount := 3,
                             m_moveBuffer := [0, 1, 2] \<rparr>"

text \<open>The events of one thread that processes both slots of \<open>two_moved\<close>.\<close>

definition one_thread_events :: "(int \<times> int, nat option) event list" where
  "one_thread_events =
     [CallGetFatAABB 0, CallQuery (0, 10), CallGetFatAABB 1, CallQuery (5, 15),
      CallGetUserData 0, CallGetUserData 1, CallAddPair (Some 100) (Some 101) 0]"

text \<open>
  Two proxies are created, the first moves out of its fat box, the second is destroyed.
\<close>

definition scan_ops :: "(int \<times> int, int, nat option) proxy_op list" where
  "scan_ops = [OpCreate (0, 10) (Some 100), OpCreate (20, 30) (Some 101),
               OpMove 0 (12, 22) 5, OpDestroy 1]"

definition after_scan_ops :: "(int \<times> int, nat) spec_tree b2BroadPhase" where
  "after_scan_ops =
     \<lparr> m_tree = [(0, (11, 28), Some 100)], m_proxyCount = 1, m_moveBuffer = [0, -1, 0],
       m_perThreadData = [\<lparr> m_pairBuffer = [], m_queryProxyId = -1 \<rparr>,
                          \<lparr> m_pairBuffer = [], m_queryProxyId = -1 \<rparr>] \<rparr>"

text \<open>Three contacts are created, two change eligibility, one is destroyed.\<close>

definition contact_ops_example :: "nat contact_op list" where
  "contact_ops_example =
     [ContactCreate 1 False, ContactCreate 2 True, ContactCreate 3 True,
      ContactToggle 1 True, ContactDestroy 2, ContactToggle 3 False]"

section \<open>Sorting, duplicates and the two loops\<close>

lemma pair_key_eq_iff: "pair_key p = pair_key q \<longleftrightarrow> p = q"
  by (cases p, cases q) (simp add: pair_key_def)

lemma pair_key_inj: "inj pair_key"
  by (rule injI) (simp add: pair_key_eq_iff)

lemma b2PairLessThan_key: "b2PairLessThan p q \<longleftrightarrow> pair_key p < pair_key q"
  by (auto simp: b2PairLessThan_def pair_key_def less_prod_def)

lemma sort_insert_insort:
  "sort_insert b2PairLessThan x xs = insort_key pair_key x xs"
  by (induction xs) (auto simp: b2PairLessThan_key)

lemma std_sort_sort_key: "std_sort b2PairLessThan xs = sort_key pair_key xs"
  by (induction xs) (simp_all add: sort_insert_insort sort_key_def)

lemma std_sort_mset: "mset (std_sort b2PairLessThan xs) = mset xs"
  by (simp add: std_sort_sort_key)

lemma std_sort_set: "set (std_sort b2PairLessThan xs) = set xs"
  by (simp add: std_sort_sort_key)

lemma std_sort_sorted: "sorted (map pair_key (std_sort b2PairLessThan xs))"
  by (simp add: std_sort_sort_key)

lemma std_sort_ordered:
  "sorted_wrt (\<lambda>p q. \<not> b2PairLessThan q p) (std_sort b2PairLessThan xs)"
proof -
  have "sorted_wrt (\<lambda>p q. pair_key p \<le> pair_key q) (std_sort b2PairLessThan xs)"
    using std_sort_sorted [of xs] by (simp add: sorted_map)
  then show ?thesis
    by (simp add: b2PairLessThan_key not_less)
qed

lemma std_sort_unique:
  assumes "mset ys = mset xs"
    and "sorted_wrt (\<lambda>p q. \<not> b2PairLessThan q p) ys"
  shows "ys = std_sort b2PairLessThan xs"
proof -
  have "sorted (map pair_key ys)"
    using assms(2) by (simp add: sorted_map b2PairLessThan_key not_less)
  moreover have "mset (map pair_key ys) = mset (map pair_key xs)"
    using assms(1) by simp
  ultimately have "sort (map pair_key xs) = map pair_key ys"
    by (rule properties_for_sort [rotated])
  moreover have "sort (map pair_key xs) = map pair_key (sort_key pair_key xs)"
    by (rule properties_for_sort) simp_all
  ultimately have "map pair_key ys = map pair_key (sort_key pair_key xs)"
    by simp
  then have "ys = sort_key pair_key xs"
    using pair_key_inj by (simp add: inj_map_eq_map)
  then show ?thesis
    by (simp add: std_sort_sort_key)
qed

lemma sorted_distinct_remdups_adj:
  fixes zs :: "('k :: linorder) list"
  shows "sorted zs \<Longrightarrow> distinct (remdups_adj zs)"
proof (induction zs rule: remdups_adj.induct)
  case (3 x y xs)
  show ?case
  proof (cases "x = y")
    case True
    then show ?thesis using 3 by simp
  next
    case False
    have "x \<notin> set (y # xs)"
      using "3.prems" False by auto
    then show ?thesis
      using False 3 by (simp del: remdups_adj.simps(3) add: remdups_adj.simps(3) [of x y xs])
  qed
qed simp_all

lemma distinct_remdups_adj_std_sort:
  "distinct (remdups_adj (std_sort b2PairLessThan xs))"
proof -
  have "distinct (remdups_adj (map pair_key (std_sort b2PairLessThan xs)))"
    by (rule sorted_distinct_remdups_adj) (rule std_sort_sorted)
  then have "distinct (map pair_key (remdups_adj (std_sort b2PairLessThan xs)))"
    by (simp add: remdups_adj_map_injective pair_key_inj)
  then show ?thesis
    by (rule distinct_map [THEN iffD1, THEN conjunct1])
qed

lemma skip_duplicates_takeWhile:
  "skip_duplicates buf p i = i + length (takeWhile (\<lambda>x. x = p) (drop i buf))"
proof (induction buf p i rule: skip_duplicates.induct)
  case (1 buf p i)
  show ?case
  proof (cases "i < length buf")
    case True
    then have d: "drop i buf = buf ! i # drop (i + 1) buf"
      by (simp add: Cons_nth_drop_Suc)
    show ?thesis
    proof (cases "buf ! i = p")
      case True
      with \<open>i < length buf\<close> have "skip_duplicates buf p i = skip_duplicates buf p (i + 1)"
        by (subst skip_duplicates.simps) simp
      then show ?thesis
        using "1.IH" True \<open>i < length buf\<close> d by simp
    next
      case False
      then have "proxyIdA (buf ! i) \<noteq> proxyIdA p \<or> proxyIdB (buf ! i) \<noteq> proxyIdB p"
        by (auto simp: b2Pair.equality)
      with \<open>i < length buf\<close> have "skip_duplicates buf p i = i"
        by (subst skip_duplicates.simps) simp
      then show ?thesis
        using False d by simp
    qed
  next
    case False
    then show ?thesis
      by (subst skip_duplicates.simps) simp
  qed
qed

lemma UpdatePairs_report_drop:
  "UpdatePairs_report ops tree buf threadId i =
     concat (map (report_events ops tree threadId) (remdups_adj (drop i buf)))"
proof (induction ops tree buf threadId i rule: UpdatePairs_report.induct)
  case (1 ops tree buf threadId i)
  show ?case
  proof (cases "i < length buf")
    case True
    let ?p = "buf ! i"
    let ?j = "skip_duplicates buf ?p (i + 1)"
    have d: "drop i buf = ?p # drop (i + 1) buf"
      using True by (simp add: Cons_nth_drop_Suc)
    have j: "drop (skip_duplicates buf ?p (Suc i)) buf = dropWhile (\<lambda>x. x = ?p) (drop (Suc i) buf)"
      by (simp add: skip_duplicates_takeWhile dropWhile_eq_drop add.commute)
    have "UpdatePairs_report ops tree buf threadId i =
            report_events ops tree threadId ?p @ UpdatePairs_report ops tree buf threadId ?j"
      using True by (subst UpdatePairs_report.simps) (simp add: report_events_def Let_def)
    also have "UpdatePairs_report ops tree buf threadId ?j =
            concat (map (report_events ops tree threadId) (remdups_adj (drop ?j buf)))"
      using "1.IH" [OF True refl refl refl] .
    finally show ?thesis
      by (simp add: d j remdups_adj_Cons' del: remdups_adj.simps)
  next
    case False
    then show ?thesis
      by (subst UpdatePairs_report.simps) simp
  qed
qed

lemma UpdatePairs_report_remdups:
  "UpdatePairs_report ops tree buf threadId 0 =
     concat (map (report_events ops tree threadId) (remdups_adj buf))"
  by (simp add: UpdatePairs_report_drop)

lemma proxy_pairs_Some:
  "tree_GetFatAABB ops tree q = Some fat \<Longrightarrow>
   proxy_pairs ops tree q = query_pairs q (tree_Query ops tree fat)"
  by (simp add: proxy_pairs_def)

lemma proxy_events_Some:
  "tree_GetFatAABB ops tree q = Some fat \<Longrightarrow>
   proxy_events ops tree q = [CallGetFatAABB q, CallQuery fat]"
  by (simp add: proxy_events_def)

lemma Query_visit_pairs:
  "Query_visit visited td =
     td\<lparr> m_pairBuffer := m_pairBuffer td @ query_pairs (m_queryProxyId td) visited \<rparr>"
  by (induction visited arbitrary: td) (simp_all add: QueryCallback_def query_pairs_def Let_def)

lemma move_range_empty: "moveEnd \<le> moveBegin \<Longrightarrow> move_range buf moveBegin moveEnd = []"
  by (simp add: move_range_def)

lemma move_range_step:
  assumes "0 \<le> i" "i < moveEnd" "i < int (length buf)"
  shows "move_range buf i moveEnd = buf ! nat i # move_range buf (i + 1) moveEnd"
proof -
  have n: "nat (moveEnd - i) = Suc (nat (moveEnd - (i + 1)))"
    using assms by simp
  have d: "drop (nat i) buf = buf ! nat i # drop (nat (i + 1)) buf"
    using assms by (simp add: Cons_nth_drop_Suc nat_add_distrib)
  show ?thesis
    unfolding move_range_def n d by simp
qed

lemma UpdatePairs_queries_Inr:
  assumes "range_ok buf i moveEnd"
    and "proxies_ok ops tree (moved_proxies buf i moveEnd)"
  shows "UpdatePairs_queries ops tree buf i moveEnd td evs =
           Inr (td\<lparr> m_pairBuffer := m_pairBuffer td
                       @ concat (map (proxy_pairs ops tree) (moved_proxies buf i moveEnd)),
                     m_queryProxyId := last (m_queryProxyId td # move_range buf i moveEnd) \<rparr>,
                evs @ concat (map (proxy_events ops tree) (moved_proxies buf i moveEnd)))"
  using assms
proof (induction ops tree buf i moveEnd td evs rule: UpdatePairs_queries.induct)
  case (1 ops tree buf i moveEnd td evs)
  show ?case
  proof (cases "i < moveEnd")
    case False
    then show ?thesis
      by (subst UpdatePairs_queries.simps) (simp add: moved_proxies_def move_range_empty)
  next
    case True
    then have bounds: "0 \<le> i" "moveEnd \<le> int (length buf)" "i < int (length buf)"
      using "1.prems"(1) by (auto simp: range_ok_def)
    have step: "move_range buf i moveEnd = buf ! nat i # move_range buf (i + 1) moveEnd"
      using bounds True by (intro move_range_step) auto
    have ok': "range_ok buf (i + 1) moveEnd"
      using bounds by (simp add: range_ok_def)
    have pok': "proxies_ok ops tree (moved_proxies buf (i + 1) moveEnd)"
      using "1.prems"(2) by (simp add: moved_proxies_def step proxies_ok_def split: if_splits)
    let ?q = "buf ! nat i"
    let ?td1 = "td\<lparr> m_queryProxyId := ?q \<rparr>"
    show ?thesis
    proof (cases "?q = e_nullProxy")
      case null: True
      have "UpdatePairs_queries ops tree buf i moveEnd td evs =
              UpdatePairs_queries ops tree buf (i + 1) moveEnd ?td1 evs"
        using True bounds null by (subst UpdatePairs_queries.simps) (simp add: Let_def)
      also have "\<dots> = Inr (?td1\<lparr> m_pairBuffer := m_pairBuffer ?td1
                       @ concat (map (proxy_pairs ops tree) (moved_proxies buf (i + 1) moveEnd)),
                     m_queryProxyId := last (m_queryProxyId ?td1 # move_range buf (i + 1) moveEnd) \<rparr>,
                evs @ concat (map (proxy_events ops tree) (moved_proxies buf (i + 1) moveEnd)))"
        using "1.IH"(1) [OF True _ refl _ ok' pok'] True bounds null by simp
      finally show ?thesis
        using null by (simp add: moved_proxies_def step)
    next
      case live: False
      then obtain fat where fat: "tree_GetFatAABB ops tree ?q = Some fat"
        using "1.prems"(2) by (auto simp: moved_proxies_def step proxies_ok_def)
      have fat': "tree_GetFatAABB ops tree (m_queryProxyId ?td1) = Some fat"
        using fat by simp
      let ?td2 = "Query_visit (tree_Query ops tree fat) ?td1"
      let ?evs2 = "evs @ [CallGetFatAABB ?q, CallQuery fat]"
      have "UpdatePairs_queries ops tree buf i moveEnd td evs =
              UpdatePairs_queries ops tree buf (i + 1) moveEnd ?td2 ?evs2"
        using True bounds live fat by (subst UpdatePairs_queries.simps) (simp add: Let_def)
      also have "\<dots> = Inr (?td2\<lparr> m_pairBuffer := m_pairBuffer ?td2
                       @ concat (map (proxy_pairs ops tree) (moved_proxies buf (i + 1) moveEnd)),
                     m_queryProxyId := last (m_queryProxyId ?td2 # move_range buf (i + 1) moveEnd) \<rparr>,
                ?evs2 @ concat (map (proxy_events ops tree) (moved_proxies buf (i + 1) moveEnd)))"
        using "1.IH"(2) [OF True _ refl _ fat' refl ok' pok'] True bounds live fat
        by simp
      finally show ?thesis
        using live
        by (simp add: moved_proxies_def step Query_visit_pairs
              proxy_pairs_Some [OF fat] proxy_events_Some [OF fat])
    qed
  qed
qed

lemma UpdatePairs_queries_Inr_D:
  assumes "UpdatePairs_queries ops tree buf i moveEnd td evs = Inr r"
  shows "range_ok buf i moveEnd \<and> proxies_ok ops tree (moved_proxies buf i moveEnd)"
  using assms
proof (induction ops tree buf i moveEnd td evs rule: UpdatePairs_queries.induct)
  case (1 ops tree buf i moveEnd td evs)
  show ?case
  proof (cases "i < moveEnd")
    case False
    then show ?thesis
      by (simp add: range_ok_def moved_proxies_def move_range_empty proxies_ok_def)
  next
    case True
    have bounds: "0 \<le> i" "i < int (length buf)"
      using "1.prems" True by (subst (asm) UpdatePairs_queries.simps, simp split: if_splits)+
    have step: "move_range buf i moveEnd = buf ! nat i # move_range buf (i + 1) moveEnd"
      using bounds True by (intro move_range_step) auto
    let ?q = "buf ! nat i"
    let ?td1 = "td\<lparr> m_queryProxyId := ?q \<rparr>"
    show ?thesis
    proof (cases "?q = e_nullProxy")
      case null: True
      have "UpdatePairs_queries ops tree buf (i + 1) moveEnd ?td1 evs = Inr r"
        using "1.prems" True bounds null
        by (subst (asm) UpdatePairs_queries.simps) (simp add: Let_def)
      then have "range_ok buf (i + 1) moveEnd \<and>
                 proxies_ok ops tree (moved_proxies buf (i + 1) moveEnd)"
        using "1.IH"(1) [OF True _ refl] True bounds null by simp
      then show ?thesis
        using bounds True null by (auto simp: range_ok_def moved_proxies_def step)
    next
      case live: False
      have "tree_GetFatAABB ops tree ?q \<noteq> None"
        using "1.prems" True bounds live
        by (subst (asm) UpdatePairs_queries.simps) (auto simp: Let_def split: option.splits)
      then obtain fat where fat: "tree_GetFatAABB ops tree ?q = Some fat"
        by auto
      have fat': "tree_GetFatAABB ops tree (m_queryProxyId ?td1) = Some fat"
        using fat by simp
      let ?td2 = "Query_visit (tree_Query ops tree fat) ?td1"
      let ?evs2 = "evs @ [CallGetFatAABB ?q, CallQuery fat]"
      have "UpdatePairs_queries ops tree buf (i + 1) moveEnd ?td2 ?evs2 = Inr r"
        using "1.prems" True bounds live fat
        by (subst (asm) UpdatePairs_queries.simps) (simp add: Let_def)
      then have "range_ok buf (i + 1) moveEnd \<and>
                 proxies_ok ops tree (moved_proxies buf (i + 1) moveEnd)"
        using "1.IH"(2) [OF True _ refl _ fat' refl] True bounds live fat by simp
      then show ?thesis
        using bounds True live fat
        by (auto simp: range_ok_def moved_proxies_def step proxies_ok_def)
    qed
  qed
qed

section \<open>The move buffer\<close>

lemma UnBufferMove_loop_length: "length (UnBufferMove_loop buf proxyId i) = length buf"
proof (induction buf proxyId i rule: UnBufferMove_loop.induct)
  case (1 buf proxyId i)
  show ?case
  proof (cases "i < length buf")
    case True
    then show ?thesis
      using "1.IH" by (subst UnBufferMove_loop.simps) simp
  next
    case False
    then show ?thesis by (subst UnBufferMove_loop.simps) simp
  qed
qed

lemma UnBufferMove_loop_nth:
  "k < length buf \<Longrightarrow>
   UnBufferMove_loop buf proxyId i ! k =
     (if i \<le> k \<and> buf ! k = proxyId then e_nullProxy else buf ! k)"
proof (induction buf proxyId i rule: UnBufferMove_loop.induct)
  case (1 buf proxyId i)
  show ?case
  proof (cases "i < length buf")
    case True
    let ?buf' = "if buf ! i = proxyId then buf[i := e_nullProxy] else buf"
    have len: "k < length ?buf'" using "1.prems" by simp
    have "UnBufferMove_loop buf proxyId i ! k = UnBufferMove_loop ?buf' proxyId (i + 1) ! k"
      using True by (subst UnBufferMove_loop.simps) simp
    also have "\<dots> = (if i + 1 \<le> k \<and> ?buf' ! k = proxyId then e_nullProxy else ?buf' ! k)"
      using "1.IH" [OF True len] .
    also have "\<dots> = (if i \<le> k \<and> buf ! k = proxyId then e_nullProxy else buf ! k)"
      using True "1.prems" by (cases "k = i") (auto simp: nth_list_update)
    finally show ?thesis .
  next
    case False
    then show ?thesis using "1.prems" by (subst UnBufferMove_loop.simps) simp
  qed
qed

lemma UnBufferMove_loop_map:
  "UnBufferMove_loop buf proxyId 0 = map (\<lambda>x. if x = proxyId then e_nullProxy else x) buf"
  by (rule nth_equalityI) (simp_all add: UnBufferMove_loop_length UnBufferMove_loop_nth)

lemma move_range_all: "move_range buf 0 (int (length buf)) = buf"
  by (simp add: move_range_def)

section \<open>Traces and the result of a call\<close>

lemma QueryCallback_buffer:
  "m_pairBuffer (snd (QueryCallback td proxyId)) =
     m_pairBuffer td @ query_pairs (m_queryProxyId td) [proxyId]"
  by (simp add: QueryCallback_def query_pairs_def Let_def)

lemma query_pairs_canonical:
  "p \<in> set (query_pairs q visited) \<Longrightarrow> proxyIdA p < proxyIdB p"
  by (auto simp: query_pairs_def b2Min_def b2Max_def)

lemma proxy_pairs_canonical:
  "p \<in> set (proxy_pairs ops tree q) \<Longrightarrow> proxyIdA p < proxyIdB p"
  by (auto simp: proxy_pairs_def dest: query_pairs_canonical split: option.splits)

lemma user_data_reads_append [simp]:
  "user_data_reads (xs @ ys) = user_data_reads xs @ user_data_reads ys"
  by (induction xs rule: user_data_reads.induct) simp_all

lemma addpair_calls_append [simp]:
  "addpair_calls (xs @ ys) = addpair_calls xs @ addpair_calls ys"
  by (induction xs rule: addpair_calls.induct) simp_all

lemma fat_reads_append [simp]: "fat_reads (xs @ ys) = fat_reads xs @ fat_reads ys"
  by (induction xs rule: fat_reads.induct) simp_all

lemma tree_queries_append [simp]: "tree_queries (xs @ ys) = tree_queries xs @ tree_queries ys"
  by (induction xs rule: tree_queries.induct) simp_all

lemma proxy_events_reads [simp]:
  "user_data_reads (proxy_events ops tree q) = []"
  "addpair_calls (proxy_events ops tree q) = []"
  by (simp_all add: proxy_events_def split: option.splits)

lemma proxy_events_concat_reads:
  "user_data_reads (concat (map (proxy_events ops tree) qs)) = []"
  "addpair_calls (concat (map (proxy_events ops tree) qs)) = []"
  by (induction qs) simp_all

lemma query_trace_reads [simp]:
  "user_data_reads (query_trace ops tree buf b e) = []"
  "addpair_calls (query_trace ops tree buf b e) = []"
  by (simp_all add: query_trace_def proxy_events_concat_reads)

lemma report_events_reads:
  "user_data_reads (concat (map (report_events ops tree threadId) ps)) =
     concat (map (\<lambda>p. [proxyIdA p, proxyIdB p]) ps)"
  by (induction ps) (simp_all add: report_events_def)

lemma pair_up_concat: "pair_up (concat (map (\<lambda>p. [proxyIdA p, proxyIdB p]) ps)) = ps"
  by (induction ps) simp_all

lemma reported_pairs_report:
  "reported_pairs (query_trace ops tree buf b e
      @ concat (map (report_events ops tree threadId) ps)) = ps"
  by (simp add: reported_pairs_def report_events_reads pair_up_concat)

lemma addpair_calls_report:
  "addpair_calls (concat (map (report_events ops tree threadId) ps)) =
     map (\<lambda>p. (tree_GetUserData ops tree (proxyIdA p), tree_GetUserData ops tree (proxyIdB p),
               threadId)) ps"
  by (induction ps) (simp_all add: report_events_def)

lemma fat_reads_proxy_events:
  "proxies_ok ops tree qs \<Longrightarrow> fat_reads (concat (map (proxy_events ops tree) qs)) = qs"
  by (induction qs) (auto simp: proxies_ok_def proxy_events_def)

lemma fat_reads_report [simp]:
  "fat_reads (concat (map (report_events ops tree threadId) ps)) = []"
  "tree_queries (concat (map (report_events ops tree threadId) ps)) = []"
  by (induction ps) (simp_all add: report_events_def)

lemma tree_queries_proxy_events:
  "proxies_ok ops tree qs \<Longrightarrow>
   length (tree_queries (concat (map (proxy_events ops tree) qs))) = length qs"
  by (induction qs) (auto simp: proxies_ok_def proxy_events_def)

lemma UpdatePairs_Inr:
  assumes "UpdatePairs_ok ops s moveBegin moveEnd threadId"
  shows "UpdatePairs ops s moveBegin moveEnd threadId =
     Inr (s\<lparr> m_perThreadData := (m_perThreadData s)[threadId :=
               (m_perThreadData s ! threadId)
               \<lparr> m_queryProxyId := last (m_queryProxyId (m_perThreadData s ! threadId)
                                         # move_range (m_moveBuffer s) moveBegin moveEnd),
                 m_pairBuffer := sorted_buffer ops s moveBegin moveEnd threadId \<rparr>] \<rparr>,
          query_trace ops (m_tree s) (m_moveBuffer s) moveBegin moveEnd
          @ concat (map (report_events ops (m_tree s) threadId)
                      (remdups_adj (sorted_buffer ops s moveBegin moveEnd threadId))))"
proof -
  from assms have t: "threadId < length (m_perThreadData s)"
    and r: "range_ok (m_moveBuffer s) moveBegin moveEnd"
    and p: "proxies_ok ops (m_tree s) (moved_proxies (m_moveBuffer s) moveBegin moveEnd)"
    by (simp_all add: UpdatePairs_ok_def)
  show ?thesis
    using t
    by (simp add: UpdatePairs_def UpdatePairs_queries_Inr [OF r p] Let_def
          UpdatePairs_report_remdups sorted_buffer_def discovered_def query_trace_def)
qed

lemma UpdatePairs_Inr_D:
  assumes "UpdatePairs ops s moveBegin moveEnd threadId = Inr r"
  shows "UpdatePairs_ok ops s moveBegin moveEnd threadId"
proof -
  from assms have t: "threadId < length (m_perThreadData s)"
    by (auto simp: UpdatePairs_def split: if_splits)
  with assms obtain r' where "UpdatePairs_queries ops (m_tree s) (m_moveBuffer s) moveBegin
      moveEnd (m_perThreadData s ! threadId) [] = Inr r'"
    by (auto simp: UpdatePairs_def split: sum.splits)
  from UpdatePairs_queries_Inr_D [OF this] t show ?thesis
    by (simp add: UpdatePairs_ok_def)
qed

lemma canonical_unordered_inj:
  fixes ps :: "b2Pair list"
  assumes "\<forall>p \<in> set ps. proxyIdA p < proxyIdB p" and "distinct ps"
  shows "distinct (map (\<lambda>p. {proxyIdA p, proxyIdB p}) ps)"
proof -
  have "inj_on (\<lambda>p. {proxyIdA p, proxyIdB p}) (set ps)"
  proof (rule inj_onI)
    fix p q :: b2Pair
    assume "p \<in> set ps" "q \<in> set ps" and eq: "{proxyIdA p, proxyIdB p} = {proxyIdA q, proxyIdB q}"
    then have "proxyIdA p < proxyIdB p" "proxyIdA q < proxyIdB q"
      using assms(1) by auto
    with eq have "proxyIdA p = proxyIdA q \<and> proxyIdB p = proxyIdB q"
      by (auto simp: doubleton_eq_iff)
    then show "p = q"
      by simp
  qed
  then show ?thesis
    using assms(2) by (simp add: distinct_map)
qed

lemma discovered_canonical:
  "p \<in> set (discovered ops tree buf b e) \<Longrightarrow> proxyIdA p < proxyIdB p"
  by (auto simp: discovered_def dest: proxy_pairs_canonical)

lemma sorted_buffer_set:
  "set (sorted_buffer ops s b e t) =
     set (m_pairBuffer (m_perThreadData s ! t)) \<union> set (discovered ops (m_tree s) (m_moveBuffer s) b e)"
  by (simp add: sorted_buffer_def std_sort_set)

lemma UpdatePairs_result:
  assumes "UpdatePairs ops s b e t = Inr (s', evs)"
  shows "t < length (m_perThreadData s)"
    and "m_tree s' = m_tree s"
    and "m_moveBuffer s' = m_moveBuffer s"
    and "m_proxyCount s' = m_proxyCount s"
    and "length (m_perThreadData s') = length (m_perThreadData s)"
    and "\<And>k. k \<noteq> t \<Longrightarrow> m_perThreadData s' ! k = m_perThreadData s ! k"
    and "m_pairBuffer (m_perThreadData s' ! t) = sorted_buffer ops s b e t"
    and "evs = query_trace ops (m_tree s) (m_moveBuffer s) b e
           @ concat (map (report_events ops (m_tree s) t)
                       (remdups_adj (sorted_buffer ops s b e t)))"
proof -
  have ok: "UpdatePairs_ok ops s b e t"
    using assms by (rule UpdatePairs_Inr_D)
  then show t: "t < length (m_perThreadData s)"
    by (simp add: UpdatePairs_ok_def)
  note r = assms [unfolded UpdatePairs_Inr [OF ok], simplified]
  from r show "m_tree s' = m_tree s" "m_moveBuffer s' = m_moveBuffer s"
    "m_proxyCount s' = m_proxyCount s"
    "length (m_perThreadData s') = length (m_perThreadData s)"
    by auto
  from r show "\<And>k. k \<noteq> t \<Longrightarrow> m_perThreadData s' ! k = m_perThreadData s ! k"
    by auto
  from r t show "m_pairBuffer (m_perThreadData s' ! t) = sorted_buffer ops s b e t"
    by auto
  from r show "evs = query_trace ops (m_tree s) (m_moveBuffer s) b e
           @ concat (map (report_events ops (m_tree s) t)
                       (remdups_adj (sorted_buffer ops s b e t)))"
    by auto
qed

lemma reports_after_all_queries_single:
  "reports_after_all_queries (query_trace ops tree buf b e
      @ concat (map (report_events ops tree t) ps))"
proof -
  have q: "\<forall>ev \<in> set (query_trace ops tree buf b e). \<not> is_AddPair ev"
    by (auto simp: query_trace_def proxy_events_def split: option.splits)
  have "dropWhile (\<lambda>ev. \<not> is_AddPair ev) (query_trace ops tree buf b e
      @ concat (map (report_events ops tree t) ps))
      = dropWhile (\<lambda>ev. \<not> is_AddPair ev) (concat (map (report_events ops tree t) ps))"
    using q by (simp add: dropWhile_append)
  moreover have "fat_reads (dropWhile P (concat (map (report_events ops tree t) ps))) = [] \<and>
    tree_queries (dropWhile P (concat (map (report_events ops tree t) ps))) = []" for P
  proof -
    have "set (dropWhile P (concat (map (report_events ops tree t) ps)))
        \<subseteq> set (concat (map (report_events ops tree t) ps))"
      by (rule set_dropWhileD [THEN subsetI])
    moreover have "\<forall>ev \<in> set (concat (map (report_events ops tree t) ps)).
        (\<forall>q. ev \<noteq> CallGetFatAABB q) \<and> (\<forall>a. ev \<noteq> CallQuery a)"
      by (auto simp: report_events_def)
    ultimately have n: "\<forall>ev \<in> set (dropWhile P (concat (map (report_events ops tree t) ps))).
        (\<forall>q. ev \<noteq> CallGetFatAABB q) \<and> (\<forall>a. ev \<noteq> CallQuery a)"
      by blast
    have "fat_reads xs = [] \<and> tree_queries xs = []"
      if "\<forall>ev \<in> set xs. (\<forall>q. ev \<noteq> CallGetFatAABB q) \<and> (\<forall>a. ev \<noteq> CallQuery a)"
      for xs :: "('a, 'b) event list"
      using that
    proof (induction xs)
      case (Cons ev xs)
      then show ?case by (cases ev) auto
    qed simp
    from this [OF n] show ?thesis .
  qed
  ultimately show ?thesis
    by (simp add: reports_after_all_queries_def)
qed

lemma consecutive_le: "consecutive b ranges e \<Longrightarrow> b \<le> e"
  by (induction b ranges e rule: consecutive.induct) auto

lemma move_range_split:
  assumes "0 \<le> b" "b \<le> k" "k \<le> e"
  shows "move_range buf b e = move_range buf b k @ move_range buf k e"
proof -
  have n: "nat (e - b) = nat (k - b) + nat (e - k)" "nat k = nat (k - b) + nat b"
    using assms by simp_all
  have "drop (nat k) buf = drop (nat (k - b)) (drop (nat b) buf)"
    by (subst n(2)) (simp only: drop_drop)
  then show ?thesis
    unfolding move_range_def n(1) by (simp only: take_add)
qed

lemma moved_proxies_split:
  assumes "range_ok buf b e" "b \<le> k" "k \<le> e"
  shows "moved_proxies buf b e = moved_proxies buf b k @ moved_proxies buf k e"
proof (cases "b = k")
  case True
  then show ?thesis
    by (simp add: moved_proxies_def move_range_empty)
next
  case False
  then have "0 \<le> b"
    using assms by (simp add: range_ok_def)
  from move_range_split [OF this assms(2,3)] show ?thesis
    by (simp add: moved_proxies_def)
qed

lemma discovered_split:
  assumes "range_ok buf b e" "b \<le> k" "k \<le> e"
  shows "discovered ops tree buf b e = discovered ops tree buf b k @ discovered ops tree buf k e"
  by (simp add: discovered_def moved_proxies_split [OF assms])

lemma range_ok_sub:
  assumes "range_ok buf b e" "b \<le> b'" "b' \<le> e'" "e' \<le> e"
  shows "range_ok buf b' e'"
  using assms by (auto simp: range_ok_def)

lemma threads_pairs_set:
  assumes "consecutive b ranges e" "range_ok buf b e"
  shows "set (threads_pairs ops tree buf ranges) = set (discovered ops tree buf b e)"
  using assms
proof (induction ranges arbitrary: b)
  case Nil
  then show ?case
    by (simp add: discovered_def moved_proxies_def move_range_empty)
next
  case (Cons r ranges)
  obtain b' k where r: "r = (b', k)" by (cases r)
  with Cons.prems have c: "b' = b" "b \<le> k" "consecutive k ranges e"
    by simp_all
  from consecutive_le [OF c(3)] have ke: "k \<le> e" .
  have "range_ok buf k e"
    using Cons.prems(2) c(2) ke by (rule range_ok_sub) simp
  from Cons.IH [OF c(3) this]
  have "set (threads_pairs ops tree buf ranges) = set (discovered ops tree buf k e)" .
  then show ?case
    by (simp add: r c(1) discovered_split [OF Cons.prems(2) c(2) ke] std_sort_set)
qed

lemma threads_events_reads:
  "user_data_reads (threads_events ops tree buf t ranges) =
     concat (map (\<lambda>p. [proxyIdA p, proxyIdB p]) (threads_pairs ops tree buf ranges))"
  by (induction ranges arbitrary: t) (auto simp: report_events_reads)

lemma threads_events_reported:
  "reported_pairs (threads_events ops tree buf t ranges) = threads_pairs ops tree buf ranges"
  by (simp add: reported_pairs_def threads_events_reads pair_up_concat)

lemma threads_events_calls:
  "(\<lambda>(a, b, t). (a, b)) ` set (addpair_calls (threads_events ops tree buf t ranges)) =
   (\<lambda>p. (tree_GetUserData ops tree (proxyIdA p), tree_GetUserData ops tree (proxyIdB p)))
     ` set (threads_pairs ops tree buf ranges)"
proof (induction ranges arbitrary: t)
  case Nil
  show ?case by simp
next
  case (Cons r ranges)
  obtain b k where r: "r = (b, k)" by (cases r)
  show ?case
    unfolding r
    by (simp add: addpair_calls_report image_Un image_image Cons.IH)
qed

lemma UpdatePairs_threads_Inr:
  assumes "\<forall>k. t \<le> k \<and> k < length (m_perThreadData s) \<longrightarrow>
             m_pairBuffer (m_perThreadData s ! k) = []"
    and "consecutive b ranges e"
    and "t + length ranges \<le> length (m_perThreadData s)"
    and "range_ok (m_moveBuffer s) b e"
    and "proxies_ok ops (m_tree s) (moved_proxies (m_moveBuffer s) b e)"
  shows "\<exists>sN. UpdatePairs_threads ops s t ranges
            = Inr (sN, threads_events ops (m_tree s) (m_moveBuffer s) t ranges) \<and>
           m_tree sN = m_tree s \<and> m_moveBuffer sN = m_moveBuffer s \<and>
           length (m_perThreadData sN) = length (m_perThreadData s)"
  using assms
proof (induction ranges arbitrary: s t b)
  case Nil
  then show ?case by simp
next
  case (Cons r ranges)
  obtain b' k where r: "r = (b', k)" by (cases r)
  with Cons.prems have c: "b' = b" "b \<le> k" "consecutive k ranges e"
    by simp_all
  from consecutive_le [OF c(3)] have ke: "k \<le> e" .
  have t: "t < length (m_perThreadData s)"
    using Cons.prems(3) by simp
  have split: "moved_proxies (m_moveBuffer s) b e =
      moved_proxies (m_moveBuffer s) b k @ moved_proxies (m_moveBuffer s) k e"
    using Cons.prems(4) c(2) ke by (rule moved_proxies_split)
  have ok: "UpdatePairs_ok ops s b k t"
    using t Cons.prems(4,5) c(2) ke
    by (auto simp: UpdatePairs_ok_def split proxies_ok_def intro: range_ok_sub)
  have empty: "m_pairBuffer (m_perThreadData s ! t) = []"
    using Cons.prems(1) t by simp
  define s1 where "s1 = s\<lparr> m_perThreadData := (m_perThreadData s)[t :=
               (m_perThreadData s ! t)
               \<lparr> m_queryProxyId := last (m_queryProxyId (m_perThreadData s ! t)
                                         # move_range (m_moveBuffer s) b k),
                 m_pairBuffer := sorted_buffer ops s b k t \<rparr>] \<rparr>"
  have u: "UpdatePairs ops s b k t =
      Inr (s1, query_trace ops (m_tree s) (m_moveBuffer s) b k
          @ concat (map (report_events ops (m_tree s) t)
              (remdups_adj (std_sort b2PairLessThan
                 (discovered ops (m_tree s) (m_moveBuffer s) b k)))))"
    unfolding UpdatePairs_Inr [OF ok] s1_def by (simp add: sorted_buffer_def empty)
  have s1: "m_tree s1 = m_tree s" "m_moveBuffer s1 = m_moveBuffer s"
    "length (m_perThreadData s1) = length (m_perThreadData s)"
    by (simp_all add: s1_def)
  have e1: "\<forall>j. t + 1 \<le> j \<and> j < length (m_perThreadData s1) \<longrightarrow>
             m_pairBuffer (m_perThreadData s1 ! j) = []"
    using Cons.prems(1) by (auto simp: s1_def)
  have "\<exists>sN. UpdatePairs_threads ops s1 (t + 1) ranges
            = Inr (sN, threads_events ops (m_tree s1) (m_moveBuffer s1) (t + 1) ranges) \<and>
           m_tree sN = m_tree s1 \<and> m_moveBuffer sN = m_moveBuffer s1 \<and>
           length (m_perThreadData sN) = length (m_perThreadData s1)"
  proof (rule Cons.IH [OF e1 c(3)])
    show "t + 1 + length ranges \<le> length (m_perThreadData s1)"
      using Cons.prems(3) s1 by simp
    show "range_ok (m_moveBuffer s1) k e"
      unfolding s1 using Cons.prems(4) c(2) ke by (rule range_ok_sub) simp
    show "proxies_ok ops (m_tree s1) (moved_proxies (m_moveBuffer s1) k e)"
      unfolding s1 using Cons.prems(5) by (simp add: split proxies_ok_def)
  qed
  then show ?case
    by (auto simp: r c(1) u s1)
qed

lemma moved_proxies_compact:
  "moved_proxies (moved_proxies buf b e) 0 (int (length (moved_proxies buf b e)))
     = moved_proxies buf b e"
proof -
  have "moved_proxies xs 0 (int (length xs)) = filter (\<lambda>q. q \<noteq> e_nullProxy) xs" for xs
    by (simp add: moved_proxies_def move_range_all)
  then show ?thesis
    by (simp add: moved_proxies_def)
qed

lemma ResetBuffers_empty:
  "\<forall>td \<in> set (m_perThreadData (ResetBuffers s)). m_pairBuffer td = []"
  by (simp add: ResetBuffers_def)

lemma pairs_canonical_nth:
  "pairs_canonical s \<Longrightarrow> threadId < length (m_perThreadData s) \<Longrightarrow>
   \<forall>p \<in> set (m_pairBuffer (m_perThreadData s ! threadId)). proxyIdA p < proxyIdB p"
  by (auto simp: pairs_canonical_def list_all_iff)

lemma pairs_canonical_new: "pairs_canonical (b2BroadPhase_new maxThreads tree)"
  by (simp add: pairs_canonical_def b2BroadPhase_new_def list_all_iff)

lemma pairs_canonical_ResetBuffers: "pairs_canonical (ResetBuffers s)"
  by (simp add: pairs_canonical_def ResetBuffers_def list_all_iff)

lemma pairs_canonical_moves:
  "pairs_canonical s \<Longrightarrow> pairs_canonical (snd (CreateProxy ops s aabb userData))"
  "pairs_canonical s \<Longrightarrow> MoveProxy ops s proxyId aabb d = Inr s' \<Longrightarrow> pairs_canonical s'"
  "pairs_canonical s \<Longrightarrow> DestroyProxy ops s proxyId = Inr s' \<Longrightarrow> pairs_canonical s'"
  "pairs_canonical s \<Longrightarrow> pairs_canonical (TouchProxy s proxyId)"
  by (auto simp: pairs_canonical_def CreateProxy_def MoveProxy_def DestroyProxy_def
      TouchProxy_def BufferMove_def UnBufferMove_def Let_def
      split: prod.splits option.splits if_splits)

lemma pairs_canonical_UpdatePairs:
  assumes "pairs_canonical s" "UpdatePairs ops s moveBegin moveEnd threadId = Inr (s', evs)"
  shows "pairs_canonical s'"
proof -
  note r = UpdatePairs_result [OF assms(2)]
  have "list_all (\<lambda>p. proxyIdA p < proxyIdB p) (m_pairBuffer (m_perThreadData s' ! k))"
    if k: "k < length (m_perThreadData s')" for k
  proof (cases "k = threadId")
    case True
    then show ?thesis
      using pairs_canonical_nth [OF assms(1) r(1)]
      by (auto simp: r(7) sorted_buffer_set list_all_iff dest: discovered_canonical)
  next
    case False
    then show ?thesis
      using assms(1) k r(5) by (simp add: r(6) pairs_canonical_def list_all_length)
  qed
  then show ?thesis
    by (simp add: pairs_canonical_def list_all_length)
qed

lemma UpdatePairs_fat_reads:
  assumes "UpdatePairs ops s moveBegin moveEnd threadId = Inr (s', evs)"
  shows "fat_reads evs = moved_proxies (m_moveBuffer s) moveBegin moveEnd"
proof -
  have "proxies_ok ops (m_tree s) (moved_proxies (m_moveBuffer s) moveBegin moveEnd)"
    using UpdatePairs_Inr_D [OF assms] by (simp add: UpdatePairs_ok_def)
  then show ?thesis
    unfolding UpdatePairs_result(8) [OF assms]
    by (simp add: query_trace_def fat_reads_proxy_events)
qed

lemma DestroyProxy_not_moved:
  assumes "DestroyProxy ops s0 proxyId = Inr s"
  shows "proxyId \<notin> set (moved_proxies (m_moveBuffer s) moveBegin moveEnd)"
proof
  assume "proxyId \<in> set (moved_proxies (m_moveBuffer s) moveBegin moveEnd)"
  then have "proxyId \<noteq> e_nullProxy" "proxyId \<in> set (m_moveBuffer s)"
    by (auto simp: moved_proxies_def move_range_def dest: in_set_takeD in_set_dropD)
  moreover have "m_moveBuffer s
      = map (\<lambda>x. if x = proxyId then e_nullProxy else x) (m_moveBuffer s0)"
    using assms
    by (auto simp: DestroyProxy_def UnBufferMove_def UnBufferMove_loop_map Let_def
        split: option.splits)
  ultimately show False
    by (auto split: if_splits)
qed

lemma CreateProxy_moved:
  assumes "CreateProxy ops s aabb userData = (proxyId, s')" "proxyId \<noteq> e_nullProxy"
  shows "proxyId \<in> set (moved_proxies (m_moveBuffer s') 0 (GetMoveCount s'))"
proof -
  have "m_moveBuffer s' = m_moveBuffer s @ [proxyId]"
    using assms(1) by (auto simp: CreateProxy_def BufferMove_def Let_def split: prod.splits)
  then show ?thesis
    unfolding moved_proxies_def GetMoveCount_def move_range_all using assms(2) by simp
qed

section \<open>The spatial index and the brute-force record\<close>

lemma spec_fresh_gt:
  "p \<in> set t \<Longrightarrow> fst p < spec_fresh t"
proof -
  have "\<forall>x \<in> set xs. x \<le> fold max xs m" and "m \<le> fold max xs m" for xs :: "int list" and m
  proof (induction xs arbitrary: m)
    case (Cons a xs)
    {
      case 1 
      have "a \<le> fold max xs (max a m)"
        using Cons(2) [of "max a m"] by simp
      then show ?case
        using Cons(1) [of "max a m"] by simp
    next
      case 2
      show ?case
        using Cons(2) [of "max a m"] by simp
    }
  qed simp_all
  from this(1) [of "map fst t" "-1"] show "p \<in> set t \<Longrightarrow> fst p < spec_fresh t"
    by (force simp: spec_fresh_def)
qed

lemma spec_fresh_notin: "spec_fresh t \<notin> fst ` set t"
  using spec_fresh_gt [of _ t] by force

lemma scan_agrees_Create:
  assumes "scan_agrees t live"
  shows "scan_agrees (snd (spec_CreateProxy G t aabb userData))
           (live(fst (spec_CreateProxy G t aabb userData) \<mapsto> geo_fatten G aabb))"
proof -
  have n: "spec_fresh t \<notin> fst ` set t"
    by (rule spec_fresh_notin)
  then have "map_of t (spec_fresh t) = None"
    by (simp add: map_of_eq_None_iff)
  moreover have d: "distinct (map fst t)"
    and l: "\<And>k. map_option fst (map_of t k) = live k"
    using assms by (simp_all add: scan_agrees_def)
  ultimately have "map_option fst (map_of (t @ [(spec_fresh t, geo_fatten G aabb, userData)]) k)
      = (live(spec_fresh t \<mapsto> geo_fatten G aabb)) k" for k
    using l [of k] by (cases "map_of t k") (auto simp: map_add_def)
  then show ?thesis
    using d n by (simp add: scan_agrees_def spec_CreateProxy_def)
qed

lemma scan_agrees_Destroy:
  assumes "scan_agrees t live" "spec_DestroyProxy t proxyId = Some t'"
  shows "scan_agrees t' (live(proxyId := None))"
proof -
  have t': "t' = filter (\<lambda>p. fst p \<noteq> proxyId) t"
    using assms(2) by (auto simp: spec_DestroyProxy_def split: option.splits)
  have "map_of (filter (\<lambda>p. fst p \<noteq> proxyId) t) k
          = (if k = proxyId then None else map_of t k)" for k
    by (induction t) auto
  then show ?thesis
    using assms(1) by (auto simp: scan_agrees_def t' distinct_map_filter)
qed

lemma scan_agrees_Move:
  assumes "scan_agrees t live" "spec_MoveProxy G t proxyId aabb d = Some (buffer, t')"
  shows "scan_agrees t'
           (case live proxyId of
              None \<Rightarrow> live
            | Some fat \<Rightarrow>
                if geo_contains G fat aabb then live
                else live(proxyId \<mapsto> geo_fatten_moved G aabb d))"
proof -
  obtain fat u where l: "map_of t proxyId = Some (fat, u)"
    using assms(2) by (auto simp: spec_MoveProxy_def split: option.splits)
  then have live: "live proxyId = Some fat"
    using assms(1) by (auto simp: scan_agrees_def dest: spec [of _ proxyId])
  show ?thesis
  proof (cases "geo_contains G fat aabb")
    case True
    then have "t' = t"
      using assms(2) l by (simp add: spec_MoveProxy_def)
    then show ?thesis
      using assms(1) live True by simp
  next
    case False
    let ?f = "\<lambda>p. if fst p = proxyId then (proxyId, geo_fatten_moved G aabb d, u) else p"
    have t': "t' = map ?f t"
      using assms(2) l False by (simp add: spec_MoveProxy_def)
    have keys: "map fst (map ?f t) = map fst t"
      by (induction t) auto
    have m: "map_of (map ?f t) k
          = (if k = proxyId \<and> k \<in> fst ` set t then Some (geo_fatten_moved G aabb d, u)
             else map_of t k)" for k
      by (induction t) (auto simp: rev_image_eqI)
    have "proxyId \<in> fst ` set t"
      using l by (force dest: map_of_SomeD)
    then have "map_option fst (map_of (map ?f t) k)
          = (live(proxyId \<mapsto> geo_fatten_moved G aabb d)) k" for k
      using assms(1) by (simp add: m scan_agrees_def)
    moreover have "distinct (map fst (map ?f t))"
      unfolding keys using assms(1) by (simp add: scan_agrees_def)
    ultimately have "scan_agrees (map ?f t) (live(proxyId \<mapsto> geo_fatten_moved G aabb d))"
      unfolding scan_agrees_def by blast
    then show ?thesis
      using live False by (simp add: t')
  qed
qed

lemma scan_step_agrees:
  assumes "scan_step G (s, live) op = Inr (s', live')" "scan_agrees (m_tree s) live"
  shows "scan_agrees (m_tree s') live'"
proof (cases op)
  case (OpCreate aabb userData)
  then show ?thesis
    using assms scan_agrees_Create [OF assms(2), of G aabb userData]
    by (auto simp: CreateProxy_def BufferMove_def spec_tree_ops_def Let_def split: prod.splits)
next
  case (OpMove proxyId aabb d)
  then show ?thesis
    using assms scan_agrees_Move [OF assms(2), of G proxyId aabb d]
    by (auto simp: MoveProxy_def BufferMove_def spec_tree_ops_def Let_def
        split: sum.splits option.splits if_splits)
next
  case (OpDestroy proxyId)
  then show ?thesis
    using assms scan_agrees_Destroy [OF _ , of "m_tree s" live proxyId]
    by (auto simp: DestroyProxy_def UnBufferMove_def spec_tree_ops_def Let_def
        split: sum.splits option.splits)
next
  case (OpTouch proxyId)
  then show ?thesis
    using assms by (auto simp: TouchProxy_def BufferMove_def)
qed

lemma scan_run_agrees:
  assumes "scan_run G c ops = Inr c'" "scan_agrees (m_tree (fst c)) (snd c)"
  shows "scan_agrees (m_tree (fst c')) (snd c')"
  using assms
proof (induction ops arbitrary: c)
  case Nil
  then show ?case by simp
next
  case (Cons op ops)
  then obtain c1 where c1: "scan_step G c op = Inr c1" "scan_run G c1 ops = Inr c'"
    by (auto split: sum.splits)
  have "scan_agrees (m_tree (fst c1)) (snd c1)"
    using scan_step_agrees [of G "fst c" "snd c" op "fst c1" "snd c1"] c1(1) Cons.prems(2)
    by simp
  from Cons.IH [OF c1(2) this] show ?case .
qed

lemma spec_Query_exact:
  assumes "scan_agrees t live"
  shows "set (spec_Query G t aabb) = {proxyId. \<exists>fat. live proxyId = Some fat \<and> geo_overlap G fat aabb}"
    and "distinct (spec_Query G t aabb)"
proof -
  have d: "distinct (map fst t)" and l: "\<And>k. map_option fst (map_of t k) = live k"
    using assms by (simp_all add: scan_agrees_def)
  show "distinct (spec_Query G t aabb)"
    using d by (simp add: spec_Query_def distinct_map_filter)
  show "set (spec_Query G t aabb) = {proxyId. \<exists>fat. live proxyId = Some fat \<and> geo_overlap G fat aabb}"
  proof (intro set_eqI iffI)
    fix k assume "k \<in> set (spec_Query G t aabb)"
    then obtain fat u where p: "(k, fat, u) \<in> set t" "geo_overlap G fat aabb"
      by (auto simp: spec_Query_def)
    then have "map_of t k = Some (fat, u)"
      using d by simp
    then have "live k = Some fat"
      using l [of k] by simp
    then show "k \<in> {proxyId. \<exists>fat. live proxyId = Some fat \<and> geo_overlap G fat aabb}"
      using p(2) by blast
  next
    fix k assume "k \<in> {proxyId. \<exists>fat. live proxyId = Some fat \<and> geo_overlap G fat aabb}"
    then obtain fat where f: "live k = Some fat" "geo_overlap G fat aabb"
      by blast
    then obtain u where "map_of t k = Some (fat, u)"
      using l [of k] by (cases "map_of t k") auto
    then have "(k, fat, u) \<in> set t"
      by (rule map_of_SomeD)
    then show "k \<in> set (spec_Query G t aabb)"
      using f(2) by (force simp: spec_Query_def)
  qed
qed

section \<open>The partition of the contact array\<close>

lemma toi_partitioned_nth:
  "toi_partitioned s \<longleftrightarrow>
     distinct (m_contacts s) \<and> m_toiCount s \<le> length (m_contacts s) \<and>
     (\<forall>i < length (m_contacts s). toiCandidate s (m_contacts s ! i) \<longleftrightarrow> i < m_toiCount s)"
proof -
  let ?xs = "m_contacts s" and ?n = "m_toiCount s"
  have "list_all (toiCandidate s) (take ?n ?xs) \<and>
        list_all (\<lambda>c. \<not> toiCandidate s c) (drop ?n ?xs) \<longleftrightarrow>
        (\<forall>i < length ?xs. toiCandidate s (?xs ! i) \<longleftrightarrow> i < ?n)" if "?n \<le> length ?xs"
  proof
    assume a: "list_all (toiCandidate s) (take ?n ?xs) \<and>
        list_all (\<lambda>c. \<not> toiCandidate s c) (drop ?n ?xs)"
    show "\<forall>i < length ?xs. toiCandidate s (?xs ! i) \<longleftrightarrow> i < ?n"
    proof (intro allI impI)
      fix i assume i: "i < length ?xs"
      show "toiCandidate s (?xs ! i) \<longleftrightarrow> i < ?n"
      proof (cases "i < ?n")
        case True
        then have "?xs ! i = take ?n ?xs ! i" by simp
        moreover have "take ?n ?xs ! i \<in> set (take ?n ?xs)"
          using True i by (intro nth_mem) simp
        ultimately show ?thesis
          using a True by (auto simp: list_all_iff)
      next
        case False
        then have "?xs ! i = drop ?n ?xs ! (i - ?n)" using i by simp
        moreover have "drop ?n ?xs ! (i - ?n) \<in> set (drop ?n ?xs)"
          using False i by (intro nth_mem) simp
        ultimately show ?thesis
          using a False by (auto simp: list_all_iff)
      qed
    qed
  next
    assume b: "\<forall>i < length ?xs. toiCandidate s (?xs ! i) \<longleftrightarrow> i < ?n"
    show "list_all (toiCandidate s) (take ?n ?xs) \<and>
        list_all (\<lambda>c. \<not> toiCandidate s c) (drop ?n ?xs)"
      using b that by (auto simp: list_all_length)
  qed
  then show ?thesis
    by (auto simp: toi_partitioned_def)
qed

lemma index_of_nth: "c \<in> set xs \<Longrightarrow> index_of c xs < length xs \<and> xs ! index_of c xs = c"
  by (induction xs) auto

lemma swap_contacts_length [simp]: "length (swap_contacts i j xs) = length xs"
  by (simp add: swap_contacts_def)

lemma swap_contacts_nth:
  "i < length xs \<Longrightarrow> j < length xs \<Longrightarrow> k < length xs \<Longrightarrow>
   swap_contacts i j xs ! k = (if k = j then xs ! i else if k = i then xs ! j else xs ! k)"
  by (simp add: swap_contacts_def nth_list_update)

lemma swap_contacts_distinct:
  "i < length xs \<Longrightarrow> j < length xs \<Longrightarrow> distinct (swap_contacts i j xs) = distinct xs"
proof -
  assume "i < length xs" "j < length xs"
  then have "mset (swap_contacts i j xs) = mset xs"
    unfolding swap_contacts_def by (simp add: mset_swap)
  then show ?thesis
    by (rule mset_eq_imp_distinct_iff)
qed

lemma AddToContactArray_partitioned:
  assumes "toi_partitioned s" "AddToContactArray s c eligible = Inr s'"
  shows "toi_partitioned s'"
proof -
  let ?xs = "m_contacts s" and ?n = "m_toiCount s" and ?f = "toiCandidate s"
  have inv: "distinct ?xs" "?n \<le> length ?xs"
    "\<And>i. i < length ?xs \<Longrightarrow> ?f (?xs ! i) \<longleftrightarrow> i < ?n"
    using assms(1) by (simp_all add: toi_partitioned_nth)
  have c: "c \<notin> set ?xs"
    using assms(2) by (auto simp: AddToContactArray_def split: if_splits)
  have ne: "\<And>i. i < length ?xs \<Longrightarrow> ?xs ! i \<noteq> c"
    using c by (metis nth_mem)
  let ?ys = "?xs @ [c]"
  have dys: "distinct ?ys" using inv(1) c by simp
  show ?thesis
  proof (cases eligible)
    case False
    then have s': "m_contacts s' = ?ys" "m_toiCount s' = ?n" "toiCandidate s' = ?f(c := False)"
      using assms(2) c by (auto simp: AddToContactArray_def Let_def)
    show ?thesis
      unfolding toi_partitioned_nth s' using dys inv(2,3) ne
      by (auto simp: nth_append less_Suc_eq)
  next
    case True
    define zs where "zs = swap_contacts ?n (length ?ys - 1) ?ys"
    have s': "m_contacts s' = zs" "m_toiCount s' = ?n + 1" "toiCandidate s' = ?f(c := True)"
      using assms(2) c True by (auto simp: AddToContactArray_def Let_def zs_def)
    have dz: "distinct zs" and lz: "length zs = Suc (length ?xs)"
      unfolding zs_def using dys inv(2) by (subst swap_contacts_distinct) simp_all
    have nth: "zs ! k = (if k = length ?xs then ?ys ! ?n else if k = ?n then c else ?xs ! k)"
      if "k < length ?ys" for k
      unfolding zs_def using that inv(2) by (subst swap_contacts_nth) (auto simp: nth_append)
    have "(?f(c := True)) (zs ! k) \<longleftrightarrow> k < ?n + 1" if k: "k < length zs" for k
    proof -
      have k': "k < length ?ys" using k lz by simp
      consider "k = length ?xs" "?n = length ?xs" | "k = length ?xs" "?n < length ?xs"
        | "k < length ?xs" "k = ?n" | "k < length ?xs" "k \<noteq> ?n"
        using k' inv(2) by force
      then show ?thesis
      proof cases
        case 1
        then show ?thesis using nth [OF k'] by simp
      next
        case 2
        then show ?thesis
          using inv(3) [of ?n] ne [of ?n] nth [OF k'] by (simp add: nth_append)
      next
        case 3
        then show ?thesis using nth [OF k'] by simp
      next
        case 4
        then show ?thesis
          using inv(3) [of k] ne [of k] nth [OF k'] by auto
      qed
    qed
    then show ?thesis
      unfolding toi_partitioned_nth s' using dz inv(2) lz by simp
  qed
qed

lemma RecalculateToiCandidacy_partitioned:
  assumes "toi_partitioned s" "RecalculateToiCandidacy s c eligible = Inr s'"
  shows "toi_partitioned s'"
proof -
  let ?xs = "m_contacts s" and ?n = "m_toiCount s" and ?f = "toiCandidate s"
  have inv: "distinct ?xs" "?n \<le> length ?xs"
    "\<And>i. i < length ?xs \<Longrightarrow> ?f (?xs ! i) \<longleftrightarrow> i < ?n"
    using assms(1) by (simp_all add: toi_partitioned_nth)
  have c: "c \<in> set ?xs"
    using assms(2) by (auto simp: RecalculateToiCandidacy_def split: if_splits)
  let ?i = "index_of c ?xs"
  have i: "?i < length ?xs" "?xs ! ?i = c"
    using index_of_nth [OF c] by simp_all
  have uniq: "\<And>k. k < length ?xs \<Longrightarrow> ?xs ! k = c \<longleftrightarrow> k = ?i"
    using inv(1) i by (auto simp: nth_eq_iff_index_eq)
  show ?thesis
  proof (cases "?f c = eligible")
    case True
    then have "s' = s"
      using assms(2) c by (simp add: RecalculateToiCandidacy_def)
    then show ?thesis using assms(1) by simp
  next
    case changed: False
    show ?thesis
    proof (cases eligible)
      case True
      then have old: "\<not> ?f c" using changed by simp
      then have ni: "?n \<le> ?i" using inv(3) [OF i(1)] i(2) by auto
      then have n: "?n < length ?xs" using i(1) by simp
      let ?zs = "swap_contacts ?i ?n ?xs"
      have s': "m_contacts s' = ?zs" "m_toiCount s' = ?n + 1" "toiCandidate s' = ?f(c := True)"
        using assms(2) c changed True by (auto simp: RecalculateToiCandidacy_def Let_def)
      have dz: "distinct ?zs"
        using inv(1) i(1) n by (subst swap_contacts_distinct) simp_all
      have "(?f(c := True)) (?zs ! k) \<longleftrightarrow> k < ?n + 1" if k: "k < length ?zs" for k
      proof -
        have k': "k < length ?xs" using k by simp
        have nth: "?zs ! k = (if k = ?n then c else if k = ?i then ?xs ! ?n else ?xs ! k)"
          using swap_contacts_nth [OF i(1) n k'] i(2) by simp
        show ?thesis
          using inv(3) [OF k'] inv(3) [OF n] uniq [OF k'] uniq [OF n] ni nth
          by auto
      qed
      then show ?thesis
        unfolding toi_partitioned_nth s' using dz n by simp
    next
      case False
      then have old: "?f c" using changed by simp
      then have ni: "?i < ?n" using inv(3) [OF i(1)] i(2) by auto
      define m where "m = ?n - 1"
      have m: "m < length ?xs" "?n = Suc m" "?i \<le> m"
        using ni inv(2) by (simp_all add: m_def)
      let ?zs = "swap_contacts ?i m ?xs"
      have s': "m_contacts s' = ?zs" "m_toiCount s' = m" "toiCandidate s' = ?f(c := False)"
        using assms(2) c changed False
        by (auto simp: RecalculateToiCandidacy_def Let_def m_def)
      have dz: "distinct ?zs"
        using inv(1) i(1) m(1) by (subst swap_contacts_distinct) simp_all
      have "(?f(c := False)) (?zs ! k) \<longleftrightarrow> k < m" if k: "k < length ?zs" for k
      proof -
        have k': "k < length ?xs" using k by simp
        have nth: "?zs ! k = (if k = m then c else if k = ?i then ?xs ! m else ?xs ! k)"
          using swap_contacts_nth [OF i(1) m(1) k'] i(2) by simp
        show ?thesis
          using inv(3) [OF k'] inv(3) [OF m(1)] uniq [OF k'] uniq [OF m(1)] m(2,3) nth
          by auto
      qed
      then show ?thesis
        unfolding toi_partitioned_nth s' using dz m(1) by simp
    qed
  qed
qed

lemma RemoveFromContactArray_partitioned:
  assumes "toi_partitioned s" "RemoveFromContactArray s c = Inr s'"
  shows "toi_partitioned s'"
proof -
  let ?xs = "m_contacts s" and ?n = "m_toiCount s" and ?f = "toiCandidate s"
  have inv: "distinct ?xs" "?n \<le> length ?xs"
    "\<And>i. i < length ?xs \<Longrightarrow> ?f (?xs ! i) \<longleftrightarrow> i < ?n"
    using assms(1) by (simp_all add: toi_partitioned_nth)
  have c: "c \<in> set ?xs"
    using assms(2) by (auto simp: RemoveFromContactArray_def split: if_splits)
  let ?i = "index_of c ?xs"
  have i: "?i < length ?xs" "?xs ! ?i = c"
    using index_of_nth [OF c] by simp_all
  define l where "l = length ?xs - 1"
  have l: "l < length ?xs" "length ?xs = Suc l" "?i \<le> l"
    using i(1) by (simp_all add: l_def)
  have f': "toiCandidate s' = ?f"
    using assms(2) c by (auto simp: RemoveFromContactArray_def Let_def split: if_splits)
  show ?thesis
  proof (cases "?i < ?n")
    case True
    define m where "m = ?n - 1"
    have m: "m < length ?xs" "?n = Suc m" "?i \<le> m" "m \<le> l"
      using True inv(2) l(2) by (simp_all add: m_def)
    define xs1 where "xs1 = swap_contacts ?i m ?xs"
    define xs2 where "xs2 = swap_contacts m l xs1"
    have s': "m_contacts s' = butlast xs2" "m_toiCount s' = m"
      using assms(2) c True
      by (auto simp: RemoveFromContactArray_def Let_def xs1_def xs2_def m_def l_def)
    have len: "length xs1 = length ?xs" "length xs2 = length ?xs"
      by (simp_all add: xs1_def xs2_def)
    have n1: "xs1 ! k = (if k = m then ?xs ! ?i else if k = ?i then ?xs ! m else ?xs ! k)"
      if "k < length ?xs" for k
      unfolding xs1_def using swap_contacts_nth [OF i(1) m(1) that] .
    have n2: "xs2 ! k = (if k = l then xs1 ! m else if k = m then xs1 ! l else xs1 ! k)"
      if "k < length ?xs" for k
      unfolding xs2_def using swap_contacts_nth [of m xs1 l k] that m(1) l(1) len by simp
    have "distinct xs2"
      unfolding xs2_def xs1_def using inv(1) i(1) m(1) l(1)
      by (simp add: swap_contacts_distinct)
    then have d: "distinct (butlast xs2)"
      by (rule distinct_butlast)
    have "?f (butlast xs2 ! k) \<longleftrightarrow> k < m" if k: "k < length (butlast xs2)" for k
    proof -
      have kl: "k < l" using k len l(2) by simp
      then have k': "k < length ?xs" using l(1) by simp
      have b: "butlast xs2 ! k = xs2 ! k"
        using k by (simp add: nth_butlast)
      show ?thesis
      proof (cases "k = m")
        case True
        then have "xs2 ! k = ?xs ! l"
          using n2 [OF k'] n1 [OF l(1)] kl m(3) by auto
        then show ?thesis
          using inv(3) [OF l(1)] True kl m(2) b by auto
      next
        case False
        then have "xs2 ! k = (if k = ?i then ?xs ! m else ?xs ! k)"
          using n2 [OF k'] n1 [OF k'] kl by auto
        then show ?thesis
          using inv(3) [OF k'] inv(3) [OF m(1)] False m(2,3) b by auto
      qed
    qed
    then show ?thesis
      unfolding toi_partitioned_nth s' f' using d m(4) len l(2) by simp
  next
    case False
    define ys where "ys = swap_contacts ?i l ?xs"
    have s': "m_contacts s' = butlast ys" "m_toiCount s' = ?n"
      using assms(2) c False
      by (auto simp: RemoveFromContactArray_def Let_def ys_def l_def)
    have len: "length ys = length ?xs"
      by (simp add: ys_def)
    have n1: "ys ! k = (if k = l then ?xs ! ?i else if k = ?i then ?xs ! l else ?xs ! k)"
      if "k < length ?xs" for k
      unfolding ys_def using swap_contacts_nth [OF i(1) l(1) that] .
    have "distinct ys"
      unfolding ys_def using inv(1) i(1) l(1) by (simp add: swap_contacts_distinct)
    then have d: "distinct (butlast ys)"
      by (rule distinct_butlast)
    have "?f (butlast ys ! k) \<longleftrightarrow> k < ?n" if k: "k < length (butlast ys)" for k
    proof -
      have kl: "k < l" using k len l(2) by simp
      then have k': "k < length ?xs" using l(1) by simp
      have b: "butlast ys ! k = ys ! k"
        using k by (simp add: nth_butlast)
      have "ys ! k = (if k = ?i then ?xs ! l else ?xs ! k)"
        using n1 [OF k'] kl by auto
      then show ?thesis
        using inv(3) [OF k'] inv(3) [OF l(1)] False l(3) b by auto
    qed
    moreover have "?n \<le> length (butlast ys)"
      using False l(2,3) len by simp
    ultimately show ?thesis
      unfolding toi_partitioned_nth s' f' using d by simp
  qed
qed

lemma contact_step_partitioned:
  "toi_partitioned s \<Longrightarrow> contact_step s op = Inr s' \<Longrightarrow> toi_partitioned s'"
  by (cases op)
    (auto intro: AddToContactArray_partitioned RemoveFromContactArray_partitioned
       RecalculateToiCandidacy_partitioned)

lemma set_swap_contacts:
  "i < length xs \<Longrightarrow> j < length xs \<Longrightarrow> set (swap_contacts i j xs) = set xs"
proof -
  assume "i < length xs" "j < length xs"
  then have "mset (swap_contacts i j xs) = mset xs"
    unfolding swap_contacts_def by (simp add: mset_swap)
  then show ?thesis
    by (rule mset_eq_setD)
qed

lemma set_butlast_swap_last:
  assumes "distinct xs" "i < length xs"
  shows "set (butlast (swap_contacts i (length xs - 1) xs)) = set xs - {xs ! i}"
proof -
  let ?ys = "swap_contacts i (length xs - 1) xs"
  have l: "length xs - 1 < length xs" using assms(2) by simp
  have ne: "?ys \<noteq> []" using assms(2) by (auto simp: swap_contacts_def)
  have last: "last ?ys = xs ! i"
    using swap_contacts_nth [OF assms(2) l l] ne by (simp add: last_conv_nth)
  have d: "distinct ?ys"
    using assms l by (simp add: swap_contacts_distinct)
  have "?ys = butlast ?ys @ [last ?ys]"
    using ne by simp
  then have "set ?ys = insert (last ?ys) (set (butlast ?ys))" "last ?ys \<notin> set (butlast ?ys)"
    using d by (metis list.simps(15) rotate1.simps(2) set_rotate1,
        metis distinct_butlast not_distinct_conv_prefix)
  then show ?thesis
    using set_swap_contacts [OF assms(2) l] last by auto
qed

lemma contact_step_agrees:
  assumes "toi_partitioned s" "contact_agrees s r" "contact_step s op = Inr s'"
  shows "contact_agrees s' (contact_ref_step r op)"
proof -
  let ?xs = "m_contacts s" and ?n = "m_toiCount s" and ?f = "toiCandidate s"
  obtain live el where r: "r = (live, el)" by (cases r)
  have a: "set ?xs = live" "?f = el"
    using assms(2) by (simp_all add: contact_agrees_def r)
  have inv: "distinct ?xs" "?n \<le> length ?xs"
    using assms(1) by (simp_all add: toi_partitioned_nth)
  show ?thesis
  proof (cases op)
    case (ContactCreate c e)
    then have s: "AddToContactArray s c e = Inr s'" using assms(3) by simp
    then have c: "c \<notin> set ?xs"
      by (auto simp: AddToContactArray_def split: if_splits)
    have "set (m_contacts s') = insert c (set ?xs)"
      using s c inv(2)
      by (auto simp: AddToContactArray_def Let_def set_swap_contacts split: if_splits)
    moreover have "toiCandidate s' = ?f(c := e)"
      using s c by (auto simp: AddToContactArray_def Let_def split: if_splits)
    ultimately show ?thesis
      using a by (simp add: contact_agrees_def r ContactCreate)
  next
    case (ContactDestroy c)
    then have s: "RemoveFromContactArray s c = Inr s'" using assms(3) by simp
    then have c: "c \<in> set ?xs"
      by (auto simp: RemoveFromContactArray_def split: if_splits)
    let ?i = "index_of c ?xs"
    have i: "?i < length ?xs" "?xs ! ?i = c"
      using index_of_nth [OF c] by simp_all
    have f': "toiCandidate s' = ?f"
      using s c by (auto simp: RemoveFromContactArray_def Let_def split: if_splits)
    have "set (m_contacts s') = set ?xs - {c}"
    proof (cases "?i < ?n")
      case True
      define m where "m = ?n - 1"
      have m: "m < length ?xs" using True inv(2) by (simp add: m_def)
      define xs1 where "xs1 = swap_contacts ?i m ?xs"
      have x1: "length xs1 = length ?xs" "distinct xs1" "set xs1 = set ?xs" "xs1 ! m = c"
        unfolding xs1_def using i m inv(1)
        by (simp_all add: swap_contacts_distinct set_swap_contacts swap_contacts_nth)
      have "m_contacts s' = butlast (swap_contacts m (length xs1 - 1) xs1)"
        using s c True by (auto simp: RemoveFromContactArray_def Let_def xs1_def m_def)
      then show ?thesis
        using set_butlast_swap_last [of xs1 m] x1 m by simp
    next
      case False
      then have "m_contacts s' = butlast (swap_contacts ?i (length ?xs - 1) ?xs)"
        using s c by (auto simp: RemoveFromContactArray_def Let_def)
      then show ?thesis
        using set_butlast_swap_last [OF inv(1) i(1)] i(2) by simp
    qed
    then show ?thesis
      using a f' by (simp add: contact_agrees_def r ContactDestroy)
  next
    case (ContactToggle c e)
    then have s: "RecalculateToiCandidacy s c e = Inr s'" using assms(3) by simp
    then have c: "c \<in> set ?xs"
      by (auto simp: RecalculateToiCandidacy_def split: if_splits)
    let ?i = "index_of c ?xs"
    have i: "?i < length ?xs" "?xs ! ?i = c"
      using index_of_nth [OF c] by simp_all
    have inv3: "?f c \<longleftrightarrow> ?i < ?n"
      using assms(1) i by (auto simp: toi_partitioned_nth)
    have "toiCandidate s' = ?f(c := e)"
      using s c by (auto simp: RecalculateToiCandidacy_def Let_def split: if_splits)
    moreover have "set (m_contacts s') = set ?xs"
    proof (cases "?f c = e")
      case True
      then show ?thesis
        using s c by (simp add: RecalculateToiCandidacy_def)
    next
      case False
      show ?thesis
      proof (cases e)
        case True
        then have "?n < length ?xs" using False inv3 i(1) by simp
        then show ?thesis
          using s c False True i(1)
          by (auto simp: RecalculateToiCandidacy_def Let_def set_swap_contacts)
      next
        case e: False
        then have "?n - 1 < length ?xs" using False inv3 inv(2) by simp
        then show ?thesis
          using s c False e i(1)
          by (auto simp: RecalculateToiCandidacy_def Let_def set_swap_contacts)
      qed
    qed
    ultimately show ?thesis
      using a by (simp add: contact_agrees_def r ContactToggle)
  qed
qed

lemma contact_run_invariant:
  assumes "contact_run s ops = Inr s'" "toi_partitioned s" "contact_agrees s r"
  shows "toi_partitioned s' \<and> contact_agrees s' (foldl contact_ref_step r ops)"
  using assms
proof (induction ops arbitrary: s r)
  case Nil
  then show ?case by simp
next
  case (Cons op ops)
  then obtain s1 where s1: "contact_step s op = Inr s1" "contact_run s1 ops = Inr s'"
    by (auto split: sum.splits)
  have "toi_partitioned s1"
    using Cons.prems(2) s1(1) by (rule contact_step_partitioned)
  moreover have "contact_agrees s1 (contact_ref_step r op)"
    using Cons.prems(2,3) s1(1) by (rule contact_step_agrees)
  ultimately show ?case
    using Cons.IH [OF s1(2)] by simp
qed

section \<open>Claims about the move buffer\<close>

text \<open>
  Claim C7. \<^verbatim>\<open>DestroyProxy\<close> removes the pending entries of the destroyed proxy from the
  move buffer by tombstoning: when the tree accepts the id, the call returns, every slot
  that held the id holds the null proxy afterwards, and the length of the move buffer
  and every other slot are unchanged.
\<close>

theorem DestroyProxy_tombstones:
  assumes "tree_DestroyProxy ops (m_tree s) proxyId = Some t"
  shows "\<exists>s'. DestroyProxy ops s proxyId = Inr s' \<and>
           length (m_moveBuffer s') = length (m_moveBuffer s) \<and>
           (\<forall>i < length (m_moveBuffer s).
              m_moveBuffer s' ! i =
                (if m_moveBuffer s ! i = proxyId then e_nullProxy else m_moveBuffer s ! i))"
  using assms
  by (simp add: DestroyProxy_def UnBufferMove_def Let_def UnBufferMove_loop_map)

theorem DestroyProxy_tombstones_witness:
  "tree_DestroyProxy (spec_tree_ops interval_geometry) (m_tree two_moved) 0
     = Some [(1, (5, 15), Some 101)] \<and>
   (\<exists>s'. DestroyProxy (spec_tree_ops interval_geometry) two_moved 0 = Inr s' \<and>
      length (m_moveBuffer s') = length (m_moveBuffer two_moved) \<and>
      (\<forall>i < length (m_moveBuffer two_moved).
         m_moveBuffer s' ! i =
           (if m_moveBuffer two_moved ! i = 0 then e_nullProxy else m_moveBuffer two_moved ! i)))"
proof -
  have h: "tree_DestroyProxy (spec_tree_ops interval_geometry) (m_tree two_moved) 0
             = Some [(1, (5, 15), Some 101)]"
    by code_simp
  show ?thesis
    using h DestroyProxy_tombstones [OF h] by blast
qed

text \<open>
  Claim C9. \<^verbatim>\<open>CreateProxy\<close> hands the box and the user data to the tree, returns the id
  the tree assigned, adds one to the proxy count and appends the new id to the move
  buffer, whatever the tree answered. The id lies in the range \<open>[0, GetMoveCount)\<close> of
  the move buffer, and a call of \<^verbatim>\<open>UpdatePairs\<close> on that range that returns has read the
  fat box of the new proxy (whose id is not the null proxy) for a tree query.
\<close>

theorem CreateProxy_enqueues:
  assumes "CreateProxy ops s aabb userData = (proxyId, s')"
  shows "tree_CreateProxy ops (m_tree s) aabb userData = (proxyId, m_tree s') \<and>
         GetProxyCount s' = GetProxyCount s + 1 \<and>
         m_moveBuffer s' = m_moveBuffer s @ [proxyId] \<and>
         m_perThreadData s' = m_perThreadData s \<and>
         proxyId \<in> set (move_range (m_moveBuffer s') 0 (GetMoveCount s')) \<and>
         (proxyId \<noteq> e_nullProxy \<longrightarrow>
            (\<forall>threadId s'' evs.
               UpdatePairs ops s' 0 (GetMoveCount s') threadId = Inr (s'', evs) \<longrightarrow>
               proxyId \<in> set (fat_reads evs)))"
proof -
  have "m_moveBuffer s' = m_moveBuffer s @ [proxyId]"
    using assms by (auto simp: CreateProxy_def BufferMove_def Let_def split: prod.splits)
  moreover from this have "proxyId \<in> set (move_range (m_moveBuffer s') 0 (GetMoveCount s'))"
    unfolding GetMoveCount_def move_range_all by simp
  moreover have "tree_CreateProxy ops (m_tree s) aabb userData = (proxyId, m_tree s') \<and>
         GetProxyCount s' = GetProxyCount s + 1 \<and> m_perThreadData s' = m_perThreadData s"
    using assms
    by (auto simp: CreateProxy_def BufferMove_def GetProxyCount_def Let_def split: prod.splits)
  moreover have "proxyId \<in> set (fat_reads evs)"
    if "proxyId \<noteq> e_nullProxy"
      and "UpdatePairs ops s' 0 (GetMoveCount s') threadId = Inr (s'', evs)"
    for threadId s'' evs
    using CreateProxy_moved [OF assms that(1)] UpdatePairs_fat_reads [OF that(2)] by simp
  ultimately show ?thesis
    by blast
qed

theorem CreateProxy_enqueues_witness:
  "CreateProxy (spec_tree_ops interval_geometry) two_moved (20, 30) (Some 7)
     = (2, after_create) \<and>
   m_moveBuffer after_create = m_moveBuffer two_moved @ [2] \<and>
   GetProxyCount after_create = GetProxyCount two_moved + 1 \<and>
   UpdatePairs (spec_tree_ops interval_geometry) after_create 0 (GetMoveCount after_create) 0
     = Inr (after_create\<lparr> m_perThreadData :=
              [\<lparr> m_pairBuffer = [\<lparr> proxyIdA = 0, proxyIdB = 1 \<rparr>, \<lparr> proxyIdA = 0, proxyIdB = 1 \<rparr>],
                 m_queryProxyId = 2 \<rparr>,
               \<lparr> m_pairBuffer = [], m_queryProxyId = -1 \<rparr>] \<rparr>,
            [CallGetFatAABB 0, CallQuery (0, 10), CallGetFatAABB 1, CallQuery (5, 15),
             CallGetFatAABB 2, CallQuery (19, 31),
             CallGetUserData 0, CallGetUserData 1, CallAddPair (Some 100) (Some 101) 0]) \<and>
   2 \<in> set (fat_reads
     [CallGetFatAABB 0, CallQuery (0, 10), CallGetFatAABB 1, CallQuery (5, 15),
      CallGetFatAABB 2, CallQuery (19, 31),
      CallGetUserData 0, CallGetUserData 1,
      CallAddPair (Some 100) (Some 101) 0 :: (int \<times> int, nat option) event])"
proof -
  have h: "CreateProxy (spec_tree_ops interval_geometry) two_moved (20, 30) (Some 7)
     = (2, after_create)"
    by code_simp
  have n: "(2 :: int) \<noteq> e_nullProxy"
    by code_simp
  have u: "UpdatePairs (spec_tree_ops interval_geometry) after_create 0
       (GetMoveCount after_create) 0
     = Inr (after_create\<lparr> m_perThreadData :=
              [\<lparr> m_pairBuffer = [\<lparr> proxyIdA = 0, proxyIdB = 1 \<rparr>, \<lparr> proxyIdA = 0, proxyIdB = 1 \<rparr>],
                 m_queryProxyId = 2 \<rparr>,
               \<lparr> m_pairBuffer = [], m_queryProxyId = -1 \<rparr>] \<rparr>,
            [CallGetFatAABB 0, CallQuery (0, 10), CallGetFatAABB 1, CallQuery (5, 15),
             CallGetFatAABB 2, CallQuery (19, 31),
             CallGetUserData 0, CallGetUserData 1, CallAddPair (Some 100) (Some 101) 0])"
    by code_simp
  show ?thesis
    using h n u CreateProxy_enqueues [OF h] by blast
qed

text \<open>
  Claim C8. \<^verbatim>\<open>MoveProxy\<close> appends the proxy id to the move buffer if and only if
  \<^verbatim>\<open>MoveProxy\<close> of the tree returns true; the proxy count and the per-thread data are
  unchanged. On the spatial index as its contract describes it, a move whose tight box
  is contained in the current fat box leaves the whole broad phase as it was.
\<close>

theorem MoveProxy_enqueues_iff:
  "(tree_MoveProxy ops (m_tree s) proxyId aabb displacement = Some (buffer, t) \<longrightarrow>
      (\<exists>s'. MoveProxy ops s proxyId aabb displacement = Inr s' \<and>
         m_tree s' = t \<and>
         m_moveBuffer s' = (if buffer then m_moveBuffer s @ [proxyId] else m_moveBuffer s) \<and>
         (length (m_moveBuffer s') = length (m_moveBuffer s) + 1) = buffer \<and>
         m_proxyCount s' = m_proxyCount s \<and>
         m_perThreadData s' = m_perThreadData s)) \<and>
   (map_of (m_tree s0) proxyId0 = Some (fat, userData) \<and> geo_contains G fat aabb0 \<longrightarrow>
      MoveProxy (spec_tree_ops G) s0 proxyId0 aabb0 displacement0 = Inr s0)"
  by (simp add: MoveProxy_def BufferMove_def Let_def spec_tree_ops_def spec_MoveProxy_def)

theorem MoveProxy_enqueues_iff_witness:
  "tree_MoveProxy (spec_tree_ops interval_geometry) (m_tree two_moved) 0 (1, 12) 3
     = Some (True, [(0, (0, 16), Some 100), (1, (5, 15), Some 101)]) \<and>
   (\<exists>s'. MoveProxy (spec_tree_ops interval_geometry) two_moved 0 (1, 12) 3 = Inr s' \<and>
      m_tree s' = [(0, (0, 16), Some 100), (1, (5, 15), Some 101)] \<and>
      m_moveBuffer s' = [0, 1, 0]) \<and>
   map_of (m_tree two_moved) 1 = Some ((5, 15), Some 101) \<and>
   geo_contains interval_geometry (5, 15) (6, 14) \<and>
   MoveProxy (spec_tree_ops interval_geometry) two_moved 1 (6, 14) 3 = Inr two_moved"
proof -
  have h1: "tree_MoveProxy (spec_tree_ops interval_geometry) (m_tree two_moved) 0 (1, 12) 3
     = Some (True, [(0, (0, 16), Some 100), (1, (5, 15), Some 101)])"
    by code_simp
  have h2: "map_of (m_tree two_moved) 1 = Some ((5, 15), Some 101)"
    by code_simp
  have h3: "geo_contains interval_geometry (5, 15) (6, 14)"
    by code_simp
  have m: "m_moveBuffer two_moved = [0, 1]"
    by (simp add: two_moved_def)
  from MoveProxy_enqueues_iff [of "spec_tree_ops interval_geometry" two_moved 0 "(1, 12)" 3
      True "[(0, (0, 16), Some 100), (1, (5, 15), Some 101)]" two_moved 1 "(5, 15)" "Some 101"
      interval_geometry "(6, 14)" 3]
  show ?thesis
    using h1 h2 h3 m by auto
qed

section \<open>Claims about pair discovery\<close>

text \<open>
  Claim C5. \<^verbatim>\<open>QueryCallback\<close> always asks the tree to continue; called on the querying
  proxy itself it records nothing; called on another proxy it appends one pair, whose
  \<open>proxyIdA\<close> is the smaller and whose \<open>proxyIdB\<close> is the larger of the two ids, so that
  \<open>proxyIdA < proxyIdB\<close>. Hence every pair that the first loop of \<^verbatim>\<open>UpdatePairs\<close> adds to
  the pair buffer has \<open>proxyIdA < proxyIdB\<close>.
\<close>

theorem QueryCallback_canonical:
  "(QueryCallback td proxyId = (continue, td') \<longrightarrow>
      continue \<and> m_queryProxyId td' = m_queryProxyId td \<and>
      (if proxyId = m_queryProxyId td then m_pairBuffer td' = m_pairBuffer td
       else \<exists>pair. m_pairBuffer td' = m_pairBuffer td @ [pair] \<and>
              proxyIdA pair < proxyIdB pair \<and>
              proxyIdA pair = min proxyId (m_queryProxyId td) \<and>
              proxyIdB pair = max proxyId (m_queryProxyId td))) \<and>
   (UpdatePairs_queries ops tree buf moveBegin moveEnd td0 evs = Inr (td1, evs1) \<longrightarrow>
      (\<exists>new. m_pairBuffer td1 = m_pairBuffer td0 @ new \<and>
         (\<forall>pair \<in> set new. proxyIdA pair < proxyIdB pair)))"
proof -
  have "continue \<and> m_queryProxyId td' = m_queryProxyId td \<and>
      (if proxyId = m_queryProxyId td then m_pairBuffer td' = m_pairBuffer td
       else \<exists>pair. m_pairBuffer td' = m_pairBuffer td @ [pair] \<and>
              proxyIdA pair < proxyIdB pair \<and>
              proxyIdA pair = min proxyId (m_queryProxyId td) \<and>
              proxyIdB pair = max proxyId (m_queryProxyId td))"
    if "QueryCallback td proxyId = (continue, td')"
    using that by (auto simp: QueryCallback_def b2Min_def b2Max_def Let_def split: if_splits)
  moreover have "\<exists>new. m_pairBuffer td1 = m_pairBuffer td0 @ new \<and>
         (\<forall>pair \<in> set new. proxyIdA pair < proxyIdB pair)"
    if r: "UpdatePairs_queries ops tree buf moveBegin moveEnd td0 evs = Inr (td1, evs1)"
  proof -
    let ?new = "concat (map (proxy_pairs ops tree) (moved_proxies buf moveBegin moveEnd))"
    from UpdatePairs_queries_Inr_D [OF r]
    have "range_ok buf moveBegin moveEnd"
      and "proxies_ok ops tree (moved_proxies buf moveBegin moveEnd)"
      by simp_all
    from UpdatePairs_queries_Inr [OF this, of td0 evs] r
    have "m_pairBuffer td1 = m_pairBuffer td0 @ ?new"
      by auto
    moreover have "\<forall>pair \<in> set ?new. proxyIdA pair < proxyIdB pair"
      by (auto dest: proxy_pairs_canonical)
    ultimately show ?thesis
      by blast
  qed
  ultimately show ?thesis
    by blast
qed

theorem QueryCallback_canonical_witness:
  "QueryCallback \<lparr> m_pairBuffer = [], m_queryProxyId = 1 \<rparr> 0
     = (True, \<lparr> m_pairBuffer = [\<lparr> proxyIdA = 0, proxyIdB = 1 \<rparr>], m_queryProxyId = 1 \<rparr>) \<and>
   UpdatePairs_queries (spec_tree_ops interval_geometry) two_proxies [0, 1] 0 2
     \<lparr> m_pairBuffer = [], m_queryProxyId = -1 \<rparr> []
     = Inr (\<lparr> m_pairBuffer = [\<lparr> proxyIdA = 0, proxyIdB = 1 \<rparr>, \<lparr> proxyIdA = 0, proxyIdB = 1 \<rparr>],
              m_queryProxyId = 1 \<rparr>,
            [CallGetFatAABB 0, CallQuery (0, 10), CallGetFatAABB 1, CallQuery (5, 15)]) \<and>
   (\<exists>new. [\<lparr> proxyIdA = 0, proxyIdB = 1 \<rparr>, \<lparr> proxyIdA = 0, proxyIdB = 1 \<rparr>] = [] @ new \<and>
      (\<forall>pair \<in> set new. proxyIdA pair < proxyIdB pair))"
proof -
  have h1: "QueryCallback \<lparr> m_pairBuffer = [], m_queryProxyId = 1 \<rparr> 0
     = (True, \<lparr> m_pairBuffer = [\<lparr> proxyIdA = 0, proxyIdB = 1 \<rparr>], m_queryProxyId = 1 \<rparr>)"
    by code_simp
  have h2: "UpdatePairs_queries (spec_tree_ops interval_geometry) two_proxies [0, 1] 0 2
     \<lparr> m_pairBuffer = [], m_queryProxyId = -1 \<rparr> []
     = Inr (\<lparr> m_pairBuffer = [\<lparr> proxyIdA = 0, proxyIdB = 1 \<rparr>, \<lparr> proxyIdA = 0, proxyIdB = 1 \<rparr>],
              m_queryProxyId = 1 \<rparr>,
            [CallGetFatAABB 0, CallQuery (0, 10), CallGetFatAABB 1, CallQuery (5, 15)])"
    by code_simp
  from QueryCallback_canonical [of "\<lparr> m_pairBuffer = [], m_queryProxyId = 1 \<rparr>" 0 True
      "\<lparr> m_pairBuffer = [\<lparr> proxyIdA = 0, proxyIdB = 1 \<rparr>], m_queryProxyId = 1 \<rparr>"
      "spec_tree_ops interval_geometry" two_proxies "[0, 1]" 0 2
      "\<lparr> m_pairBuffer = [], m_queryProxyId = -1 \<rparr>" "[]"
      "\<lparr> m_pairBuffer = [\<lparr> proxyIdA = 0, proxyIdB = 1 \<rparr>, \<lparr> proxyIdA = 0, proxyIdB = 1 \<rparr>],
              m_queryProxyId = 1 \<rparr>"
      "[CallGetFatAABB 0, CallQuery (0, 10), CallGetFatAABB 1, CallQuery (5, 15)]"]
  show ?thesis
    using h1 h2 by simp
qed

text \<open>
  Claim C2. Within one call of \<^verbatim>\<open>UpdatePairs\<close> no unordered pair of proxies is passed to
  \<^verbatim>\<open>AddPair\<close> twice: the trace of a call that returns is its tree queries followed by one
  report (two reads of user data and one callback) for each pair of \<open>reported_pairs\<close>, and
  these pairs are different as unordered pairs. The pair buffer of the thread holds
  what \<^verbatim>\<open>QueryCallback\<close> stored, so its pairs have \<open>proxyIdA < proxyIdB\<close> at the start
  (the invariant \<open>pairs_canonical\<close>, which no operation of the broad phase breaks).
\<close>

theorem UpdatePairs_reports_pair_once:
  assumes "UpdatePairs ops s moveBegin moveEnd threadId = Inr (s', evs)"
    and "\<forall>p \<in> set (m_pairBuffer (m_perThreadData s ! threadId)). proxyIdA p < proxyIdB p"
  shows "evs = query_trace ops (m_tree s) (m_moveBuffer s) moveBegin moveEnd
           @ concat (map (report_events ops (m_tree s) threadId) (reported_pairs evs)) \<and>
         distinct (map (\<lambda>p. {proxyIdA p, proxyIdB p}) (reported_pairs evs)) \<and>
         length (addpair_calls evs) = length (reported_pairs evs)"
proof -
  let ?ps = "remdups_adj (sorted_buffer ops s moveBegin moveEnd threadId)"
  have evs: "evs = query_trace ops (m_tree s) (m_moveBuffer s) moveBegin moveEnd
           @ concat (map (report_events ops (m_tree s) threadId) ?ps)"
    using UpdatePairs_result(8) [OF assms(1)] .
  have rp: "reported_pairs evs = ?ps"
    unfolding evs by (rule reported_pairs_report)
  have "distinct ?ps"
    unfolding sorted_buffer_def by (rule distinct_remdups_adj_std_sort)
  moreover have "\<forall>p \<in> set ?ps. proxyIdA p < proxyIdB p"
    using assms(2) by (auto simp: sorted_buffer_set dest: discovered_canonical)
  ultimately have "distinct (map (\<lambda>p. {proxyIdA p, proxyIdB p}) ?ps)"
    by (intro canonical_unordered_inj)
  moreover have "length (addpair_calls evs) = length ?ps"
    unfolding evs by (simp add: addpair_calls_report)
  ultimately show ?thesis
    using evs rp by simp
qed

theorem UpdatePairs_reports_pair_once_witness:
  "UpdatePairs (spec_tree_ops interval_geometry) two_moved 0 2 0
     = Inr ((two_moved\<lparr> m_perThreadData :=
          [\<lparr> m_pairBuffer = [\<lparr> proxyIdA = 0, proxyIdB = 1 \<rparr>, \<lparr> proxyIdA = 0, proxyIdB = 1 \<rparr>],
             m_queryProxyId = 1 \<rparr>,
           \<lparr> m_pairBuffer = [], m_queryProxyId = -1 \<rparr>] \<rparr>),
     one_thread_events) \<and>
   m_pairBuffer (m_perThreadData two_moved ! 0) = [] \<and>
   reported_pairs one_thread_events = [\<lparr> proxyIdA = 0, proxyIdB = 1 \<rparr>] \<and>
   distinct (map (\<lambda>p. {proxyIdA p, proxyIdB p}) (reported_pairs one_thread_events)) \<and>
   length (addpair_calls one_thread_events) = length (reported_pairs one_thread_events)"
proof -
  have h1: "UpdatePairs (spec_tree_ops interval_geometry) two_moved 0 2 0
     = Inr ((two_moved\<lparr> m_perThreadData :=
          [\<lparr> m_pairBuffer = [\<lparr> proxyIdA = 0, proxyIdB = 1 \<rparr>, \<lparr> proxyIdA = 0, proxyIdB = 1 \<rparr>],
             m_queryProxyId = 1 \<rparr>,
           \<lparr> m_pairBuffer = [], m_queryProxyId = -1 \<rparr>] \<rparr>),
     one_thread_events)"
    by code_simp
  have h2: "\<forall>p \<in> set (m_pairBuffer (m_perThreadData two_moved ! 0)). proxyIdA p < proxyIdB p"
    by code_simp
  have v: "reported_pairs one_thread_events = [\<lparr> proxyIdA = 0, proxyIdB = 1 \<rparr>]"
    by code_simp
  have e: "m_pairBuffer (m_perThreadData two_moved ! 0) = []"
    by code_simp
  show ?thesis
    using h1 e v UpdatePairs_reports_pair_once [OF h1 h2] by blast
qed

text \<open>
  Claim C3, as the code has it. Reporting is not a step of its own after all threads
  have finished: each call of \<^verbatim>\<open>UpdatePairs\<close> reports at its own end. A call that returns
  has made all the tree queries of its range before its first \<^verbatim>\<open>AddPair\<close> callback; it
  leaves the pair buffer of its thread sorted by \<open>b2PairLessThan\<close>, and it invokes
  \<^verbatim>\<open>AddPair(userDataA, userDataB, threadId)\<close> exactly once for each different pair of that
  buffer, in the order of the buffer.
\<close>

theorem UpdatePairs_reports_after_own_queries:
  assumes "UpdatePairs ops s moveBegin moveEnd threadId = Inr (s', evs)"
  shows "reports_after_all_queries evs \<and>
         m_pairBuffer (m_perThreadData s' ! threadId)
           = std_sort b2PairLessThan (m_pairBuffer (m_perThreadData s ! threadId)
               @ discovered ops (m_tree s) (m_moveBuffer s) moveBegin moveEnd) \<and>
         sorted_wrt (\<lambda>p q. \<not> b2PairLessThan q p) (m_pairBuffer (m_perThreadData s' ! threadId)) \<and>
         evs = query_trace ops (m_tree s) (m_moveBuffer s) moveBegin moveEnd
               @ concat (map (report_events ops (m_tree s) threadId)
                   (remdups_adj (m_pairBuffer (m_perThreadData s' ! threadId)))) \<and>
         reported_pairs evs = remdups_adj (m_pairBuffer (m_perThreadData s' ! threadId)) \<and>
         distinct (reported_pairs evs) \<and>
         set (reported_pairs evs) = set (m_pairBuffer (m_perThreadData s' ! threadId)) \<and>
         addpair_calls evs
           = map (\<lambda>p. (tree_GetUserData ops (m_tree s) (proxyIdA p),
                       tree_GetUserData ops (m_tree s) (proxyIdB p), threadId))
               (reported_pairs evs)"
proof -
  note r = UpdatePairs_result [OF assms]
  let ?buf = "m_pairBuffer (m_perThreadData s' ! threadId)"
  have buf: "?buf = std_sort b2PairLessThan (m_pairBuffer (m_perThreadData s ! threadId)
               @ discovered ops (m_tree s) (m_moveBuffer s) moveBegin moveEnd)"
    unfolding r(7) by (simp add: sorted_buffer_def)
  have evs: "evs = query_trace ops (m_tree s) (m_moveBuffer s) moveBegin moveEnd
               @ concat (map (report_events ops (m_tree s) threadId) (remdups_adj ?buf))"
    unfolding r(7) by (rule r(8))
  have rp: "reported_pairs evs = remdups_adj ?buf"
    by (subst evs) (rule reported_pairs_report)
  have "reports_after_all_queries evs"
    by (subst evs) (rule reports_after_all_queries_single)
  moreover have "sorted_wrt (\<lambda>p q. \<not> b2PairLessThan q p) ?buf"
    unfolding buf by (rule std_sort_ordered)
  moreover have "distinct (remdups_adj ?buf)"
    unfolding buf by (rule distinct_remdups_adj_std_sort)
  moreover have "addpair_calls evs
           = map (\<lambda>p. (tree_GetUserData ops (m_tree s) (proxyIdA p),
                       tree_GetUserData ops (m_tree s) (proxyIdB p), threadId))
               (remdups_adj ?buf)"
    by (subst evs) (simp add: addpair_calls_report)
  ultimately show ?thesis
    using buf evs rp by simp
qed

theorem UpdatePairs_reports_after_own_queries_witness:
  "UpdatePairs (spec_tree_ops interval_geometry) two_moved 0 2 0
     = Inr ((two_moved\<lparr> m_perThreadData :=
          [\<lparr> m_pairBuffer = [\<lparr> proxyIdA = 0, proxyIdB = 1 \<rparr>, \<lparr> proxyIdA = 0, proxyIdB = 1 \<rparr>],
             m_queryProxyId = 1 \<rparr>,
           \<lparr> m_pairBuffer = [], m_queryProxyId = -1 \<rparr>] \<rparr>),
     one_thread_events) \<and>
   reports_after_all_queries one_thread_events \<and>
   addpair_calls one_thread_events = [(Some 100, Some 101, 0)]"
proof -
  have h1: "UpdatePairs (spec_tree_ops interval_geometry) two_moved 0 2 0
     = Inr ((two_moved\<lparr> m_perThreadData :=
          [\<lparr> m_pairBuffer = [\<lparr> proxyIdA = 0, proxyIdB = 1 \<rparr>, \<lparr> proxyIdA = 0, proxyIdB = 1 \<rparr>],
             m_queryProxyId = 1 \<rparr>,
           \<lparr> m_pairBuffer = [], m_queryProxyId = -1 \<rparr>] \<rparr>),
     one_thread_events)"
    by code_simp
  have v: "addpair_calls one_thread_events = [(Some 100, Some 101, 0)]"
    by code_simp
  show ?thesis
    using h1 v UpdatePairs_reports_after_own_queries [OF h1] by blast
qed

text \<open>
  Claim C3, as stated, fails: with two threads, one proxy each, the callback of thread 0
  comes before the tree query of thread 1.
\<close>

theorem finalize_step_counterexample:
  "UpdatePairs_threads (spec_tree_ops interval_geometry) two_moved 0 [(0, 1), (1, 2)]
     = Inr (two_moved\<lparr> m_perThreadData :=
              [\<lparr> m_pairBuffer = [\<lparr> proxyIdA = 0, proxyIdB = 1 \<rparr>], m_queryProxyId = 0 \<rparr>,
               \<lparr> m_pairBuffer = [\<lparr> proxyIdA = 0, proxyIdB = 1 \<rparr>], m_queryProxyId = 1 \<rparr>] \<rparr>,
            [CallGetFatAABB 0, CallQuery (0, 10),
             CallGetUserData 0, CallGetUserData 1, CallAddPair (Some 100) (Some 101) 0,
             CallGetFatAABB 1, CallQuery (5, 15),
             CallGetUserData 0, CallGetUserData 1, CallAddPair (Some 100) (Some 101) 1]) \<and>
   \<not> reports_after_all_queries (events_of
         (UpdatePairs_threads (spec_tree_ops interval_geometry) two_moved 0 [(0, 1), (1, 2)]))"
  by code_simp

text \<open>
  Claim C10. \<^verbatim>\<open>UpdatePairs\<close> skips the slots that hold the null proxy: the fat boxes read
  by a call that returns are those of the other slots of its range, in order, one tree
  query each, and never that of the null proxy; the call has the same events and leaves
  the same pair buffer as a call on the move buffer that holds only these other slots,
  so the skipped slots add no pair and no callback; and when the broad phase is as
  \<^verbatim>\<open>DestroyProxy\<close> of a proxy left it, the fat box of that proxy is not read.
\<close>

theorem UpdatePairs_skips_null_proxy:
  assumes "UpdatePairs ops s moveBegin moveEnd threadId = Inr (s', evs)"
  shows "fat_reads evs = moved_proxies (m_moveBuffer s) moveBegin moveEnd \<and>
         e_nullProxy \<notin> set (fat_reads evs) \<and>
         length (tree_queries evs) = length (moved_proxies (m_moveBuffer s) moveBegin moveEnd) \<and>
         (\<exists>s''. UpdatePairs ops
                   (s\<lparr> m_moveBuffer := moved_proxies (m_moveBuffer s) moveBegin moveEnd \<rparr>)
                   0 (int (length (moved_proxies (m_moveBuffer s) moveBegin moveEnd))) threadId
                 = Inr (s'', evs) \<and>
                m_pairBuffer (m_perThreadData s'' ! threadId)
                  = m_pairBuffer (m_perThreadData s' ! threadId)) \<and>
         (\<forall>s0 proxyId. DestroyProxy ops s0 proxyId = Inr s \<longrightarrow> proxyId \<notin> set (fat_reads evs))"
proof -
  let ?moved = "moved_proxies (m_moveBuffer s) moveBegin moveEnd"
  let ?sc = "s\<lparr> m_moveBuffer := ?moved \<rparr>"
  have ok: "UpdatePairs_ok ops s moveBegin moveEnd threadId"
    using assms by (rule UpdatePairs_Inr_D)
  then have p: "proxies_ok ops (m_tree s) ?moved" and t: "threadId < length (m_perThreadData s)"
    by (simp_all add: UpdatePairs_ok_def)
  note r = UpdatePairs_result [OF assms]
  have reads: "fat_reads evs = ?moved"
    using assms by (rule UpdatePairs_fat_reads)
  have "e_nullProxy \<notin> set ?moved"
    by (simp add: moved_proxies_def)
  moreover have "length (tree_queries evs) = length ?moved"
    unfolding r(8) by (simp add: query_trace_def tree_queries_proxy_events [OF p])
  moreover have okc: "UpdatePairs_ok ops ?sc 0 (int (length ?moved)) threadId"
    using t p by (simp add: UpdatePairs_ok_def range_ok_def moved_proxies_compact)
  have same: "sorted_buffer ops ?sc 0 (int (length ?moved)) threadId
            = sorted_buffer ops s moveBegin moveEnd threadId"
    "query_trace ops (m_tree ?sc) (m_moveBuffer ?sc) 0 (int (length ?moved))
            = query_trace ops (m_tree s) (m_moveBuffer s) moveBegin moveEnd"
    by (simp_all add: sorted_buffer_def discovered_def query_trace_def moved_proxies_compact)
  have "\<exists>s''. UpdatePairs ops ?sc 0 (int (length ?moved)) threadId = Inr (s'', evs) \<and>
          m_pairBuffer (m_perThreadData s'' ! threadId)
            = m_pairBuffer (m_perThreadData s' ! threadId)"
    unfolding UpdatePairs_Inr [OF okc] same r(7) using t by (simp add: r(8))
  moreover have "\<forall>s0 proxyId. DestroyProxy ops s0 proxyId = Inr s \<longrightarrow> proxyId \<notin> set ?moved"
    by (blast dest: DestroyProxy_not_moved)
  ultimately show ?thesis
    using reads by simp
qed

theorem UpdatePairs_skips_null_proxy_witness:
  "UpdatePairs (spec_tree_ops interval_geometry) after_destroy 0 2 0
     = Inr (after_destroy\<lparr> m_perThreadData :=
              [\<lparr> m_pairBuffer = [], m_queryProxyId = 1 \<rparr>,
               \<lparr> m_pairBuffer = [], m_queryProxyId = -1 \<rparr>] \<rparr>,
            [CallGetFatAABB 1, CallQuery (5, 15)]) \<and>
   DestroyProxy (spec_tree_ops interval_geometry) two_moved 0 = Inr after_destroy \<and>
   fat_reads [CallGetFatAABB 1, CallQuery (5, 15) :: (int \<times> int, nat option) event]
     = moved_proxies (m_moveBuffer after_destroy) 0 2 \<and>
   moved_proxies (m_moveBuffer after_destroy) 0 2 = [1] \<and>
   0 \<notin> set (fat_reads [CallGetFatAABB 1, CallQuery (5, 15) :: (int \<times> int, nat option) event])"
proof -
  have h1: "UpdatePairs (spec_tree_ops interval_geometry) after_destroy 0 2 0
     = Inr (after_destroy\<lparr> m_perThreadData :=
              [\<lparr> m_pairBuffer = [], m_queryProxyId = 1 \<rparr>,
               \<lparr> m_pairBuffer = [], m_queryProxyId = -1 \<rparr>] \<rparr>,
            [CallGetFatAABB 1, CallQuery (5, 15)])"
    by code_simp
  have h2: "DestroyProxy (spec_tree_ops interval_geometry) two_moved 0 = Inr after_destroy"
    by code_simp
  have v: "moved_proxies (m_moveBuffer after_destroy) 0 2 = [1]"
    by code_simp
  show ?thesis
    using h1 h2 v UpdatePairs_skips_null_proxy [OF h1] by blast
qed

text \<open>
  Claim C1, as the code has it. From empty pair buffers, let thread \<open>k\<close> call
  \<^verbatim>\<open>UpdatePairs\<close> on the \<open>k\<close>-th of consecutive ranges of the move buffer. If one thread
  alone can process the whole range, then the run of the threads returns; after
  \<^verbatim>\<open>ResetBuffers\<close> and with the same move buffer again, a second run has exactly the same
  events, hence the same callbacks in the same order; and the set of reported pairs,
  as proxy ids and as user data, is that of the one thread alone. The sequence of
  callbacks is not the same for one thread and for several (see the counterexample).
\<close>

theorem UpdatePairs_threads_deterministic:
  assumes "\<forall>td \<in> set (m_perThreadData s). m_pairBuffer td = []"
    and "consecutive moveBegin ranges moveEnd"
    and "length ranges \<le> length (m_perThreadData s)"
    and "UpdatePairs ops s moveBegin moveEnd 0 = Inr (s1, evs1)"
  shows "\<exists>sN evsN sN'.
           UpdatePairs_threads ops s 0 ranges = Inr (sN, evsN) \<and>
           UpdatePairs_threads ops ((ResetBuffers sN)\<lparr> m_moveBuffer := m_moveBuffer s \<rparr>) 0 ranges
             = Inr (sN', evsN) \<and>
           set (reported_pairs evsN) = set (reported_pairs evs1) \<and>
           (\<lambda>(a, b, t). (a, b)) ` set (addpair_calls evsN)
             = (\<lambda>(a, b, t). (a, b)) ` set (addpair_calls evs1)"
proof -
  let ?tree = "m_tree s" and ?buf = "m_moveBuffer s"
  let ?evsN = "threads_events ops ?tree ?buf 0 ranges"
  have ok: "UpdatePairs_ok ops s moveBegin moveEnd 0"
    using assms(4) by (rule UpdatePairs_Inr_D)
  then have rng: "range_ok ?buf moveBegin moveEnd"
    and prx: "proxies_ok ops ?tree (moved_proxies ?buf moveBegin moveEnd)"
    and t0: "0 < length (m_perThreadData s)"
    by (simp_all add: UpdatePairs_ok_def)
  have empty: "\<forall>k. 0 \<le> k \<and> k < length (m_perThreadData s) \<longrightarrow>
             m_pairBuffer (m_perThreadData s ! k) = []"
    using assms(1) by simp
  have len: "0 + length ranges \<le> length (m_perThreadData s)"
    using assms(3) by simp
  from UpdatePairs_threads_Inr [OF empty assms(2) len rng prx]
  obtain sN where sN: "UpdatePairs_threads ops s 0 ranges = Inr (sN, ?evsN)"
    "m_tree sN = ?tree" "length (m_perThreadData sN) = length (m_perThreadData s)"
    by blast
  let ?s2 = "(ResetBuffers sN)\<lparr> m_moveBuffer := ?buf \<rparr>"
  have s2: "m_tree ?s2 = ?tree" "m_moveBuffer ?s2 = ?buf"
    "length (m_perThreadData ?s2) = length (m_perThreadData s)"
    using sN(2,3) by (simp_all add: ResetBuffers_def)
  have empty2: "\<forall>k. 0 \<le> k \<and> k < length (m_perThreadData ?s2) \<longrightarrow>
             m_pairBuffer (m_perThreadData ?s2 ! k) = []"
    by (simp add: ResetBuffers_def)
  have "\<exists>sN'. UpdatePairs_threads ops ?s2 0 ranges
            = Inr (sN', threads_events ops (m_tree ?s2) (m_moveBuffer ?s2) 0 ranges) \<and>
           m_tree sN' = m_tree ?s2 \<and> m_moveBuffer sN' = m_moveBuffer ?s2 \<and>
           length (m_perThreadData sN') = length (m_perThreadData ?s2)"
    by (rule UpdatePairs_threads_Inr [OF empty2 assms(2)]) (simp_all only: s2 len rng prx)
  then obtain sN' where sN': "UpdatePairs_threads ops ?s2 0 ranges = Inr (sN', ?evsN)"
    unfolding s2 by blast
  have b0: "m_pairBuffer (m_perThreadData s ! 0) = []"
    using assms(1) t0 by simp
  let ?ps1 = "remdups_adj (std_sort b2PairLessThan (discovered ops ?tree ?buf moveBegin moveEnd))"
  have evs1: "evs1 = query_trace ops ?tree ?buf moveBegin moveEnd
           @ concat (map (report_events ops ?tree 0) ?ps1)"
    using UpdatePairs_result(8) [OF assms(4)] by (simp add: sorted_buffer_def b0)
  have rp1: "reported_pairs evs1 = ?ps1"
    unfolding evs1 by (rule reported_pairs_report)
  have set1: "set ?ps1 = set (discovered ops ?tree ?buf moveBegin moveEnd)"
    by (simp add: std_sort_set)
  have setN: "set (threads_pairs ops ?tree ?buf ranges)
      = set (discovered ops ?tree ?buf moveBegin moveEnd)"
    using assms(2) rng by (rule threads_pairs_set)
  have "set (reported_pairs ?evsN) = set (reported_pairs evs1)"
    by (simp only: threads_events_reported rp1 set1 setN)
  moreover have "(\<lambda>(a, b, t). (a, b)) ` set (addpair_calls evs1)
      = (\<lambda>p. (tree_GetUserData ops ?tree (proxyIdA p), tree_GetUserData ops ?tree (proxyIdB p)))
          ` set ?ps1"
    unfolding evs1 by (simp add: addpair_calls_report image_image)
  then have "(\<lambda>(a, b, t). (a, b)) ` set (addpair_calls ?evsN)
             = (\<lambda>(a, b, t). (a, b)) ` set (addpair_calls evs1)"
    by (simp only: threads_events_calls set1 setN)
  ultimately show ?thesis
    using sN(1) sN' by blast
qed

theorem UpdatePairs_threads_deterministic_witness:
  "map m_pairBuffer (m_perThreadData two_moved) = [[], []] \<and>
   consecutive 0 [(0, 1), (1, 2)] 2 \<and>
   length [(0, 1), (1, 2) :: int \<times> int] \<le> length (m_perThreadData two_moved) \<and>
   UpdatePairs (spec_tree_ops interval_geometry) two_moved 0 2 0
     = Inr ((two_moved\<lparr> m_perThreadData :=
          [\<lparr> m_pairBuffer = [\<lparr> proxyIdA = 0, proxyIdB = 1 \<rparr>, \<lparr> proxyIdA = 0, proxyIdB = 1 \<rparr>],
             m_queryProxyId = 1 \<rparr>,
           \<lparr> m_pairBuffer = [], m_queryProxyId = -1 \<rparr>] \<rparr>),
     one_thread_events) \<and>
   (\<exists>sN evsN sN'.
      UpdatePairs_threads (spec_tree_ops interval_geometry) two_moved 0 [(0, 1), (1, 2)]
        = Inr (sN, evsN) \<and>
      UpdatePairs_threads (spec_tree_ops interval_geometry)
          ((ResetBuffers sN)\<lparr> m_moveBuffer := m_moveBuffer two_moved \<rparr>) 0 [(0, 1), (1, 2)]
        = Inr (sN', evsN) \<and>
      set (reported_pairs evsN) = {\<lparr> proxyIdA = 0, proxyIdB = 1 \<rparr>})"
proof -
  have h1: "\<forall>td \<in> set (m_perThreadData two_moved). m_pairBuffer td = []"
    by code_simp
  have h2: "consecutive 0 [(0, 1), (1, 2)] 2"
    by code_simp
  have h3: "length [(0, 1), (1, 2) :: int \<times> int] \<le> length (m_perThreadData two_moved)"
    by code_simp
  have h4: "UpdatePairs (spec_tree_ops interval_geometry) two_moved 0 2 0
     = Inr ((two_moved\<lparr> m_perThreadData :=
          [\<lparr> m_pairBuffer = [\<lparr> proxyIdA = 0, proxyIdB = 1 \<rparr>, \<lparr> proxyIdA = 0, proxyIdB = 1 \<rparr>],
             m_queryProxyId = 1 \<rparr>,
           \<lparr> m_pairBuffer = [], m_queryProxyId = -1 \<rparr>] \<rparr>),
     one_thread_events)"
    by code_simp
  have v: "set (reported_pairs one_thread_events) = {\<lparr> proxyIdA = 0, proxyIdB = 1 \<rparr>}"
    by code_simp
  from UpdatePairs_threads_deterministic [OF h1 h2 h3 h4] v
  have "\<exists>sN evsN sN'.
      UpdatePairs_threads (spec_tree_ops interval_geometry) two_moved 0 [(0, 1), (1, 2)]
        = Inr (sN, evsN) \<and>
      UpdatePairs_threads (spec_tree_ops interval_geometry)
          ((ResetBuffers sN)\<lparr> m_moveBuffer := m_moveBuffer two_moved \<rparr>) 0 [(0, 1), (1, 2)]
        = Inr (sN', evsN) \<and>
      set (reported_pairs evsN) = {\<lparr> proxyIdA = 0, proxyIdB = 1 \<rparr>}"
    by auto
  moreover have "map m_pairBuffer (m_perThreadData two_moved) = [[], []]"
    by code_simp
  ultimately show ?thesis
    using h2 h3 h4 by blast
qed

text \<open>
  Claim C1, as stated, fails: over the same move buffer one thread makes one callback
  for the pair of proxies 0 and 1, and two threads, one proxy each, make two, one by
  each thread.
\<close>

theorem thread_count_counterexample:
  "addpair_calls (events_of (UpdatePairs (spec_tree_ops interval_geometry) two_moved 0 2 0))
     = [(Some (100 :: nat), Some 101, 0)] \<and>
   addpair_calls (events_of
       (UpdatePairs_threads (spec_tree_ops interval_geometry) two_moved 0 [(0, 1), (1, 2)]))
     = [(Some (100 :: nat), Some 101, 0), (Some 100, Some 101, 1)] \<and>
   map (\<lambda>(a, b, t). (a, b))
       (addpair_calls (events_of (UpdatePairs (spec_tree_ops interval_geometry) two_moved 0 2 0)))
     \<noteq> map (\<lambda>(a, b, t). (a, b))
         (addpair_calls (events_of
            (UpdatePairs_threads (spec_tree_ops interval_geometry) two_moved 0 [(0, 1), (1, 2)])))"
  by code_simp

section \<open>Claims about queries and about the contact array\<close>

text \<open>
  Claim C4. On the spatial index as its contract describes it: after every sequence of
  creations, moves, touches and destructions of proxies that the broad phase accepts,
  \<^verbatim>\<open>Query\<close> over any box visits exactly the proxies that are live and whose current fat
  box overlaps the box, each once; a destroyed proxy is not visited and no overlapping
  live proxy is missed.
\<close>

theorem Query_exact:
  assumes "scan_run G (b2BroadPhase_new maxThreads [], Map.empty) ops = Inr (s, live)"
  shows "set (Query (spec_tree_ops G) s aabb threadId)
           = {proxyId. \<exists>fat. live proxyId = Some fat \<and> geo_overlap G fat aabb} \<and>
         distinct (Query (spec_tree_ops G) s aabb threadId)"
proof -
  from scan_run_agrees [OF assms] have "scan_agrees (m_tree s) live"
    by (simp add: scan_agrees_def b2BroadPhase_new_def)
  from spec_Query_exact [OF this, of G aabb] show ?thesis
    by (simp add: Query_def spec_tree_ops_def)
qed

theorem Query_exact_witness:
  "scan_run interval_geometry (b2BroadPhase_new 2 [], Map.empty) scan_ops
     = Inr (after_scan_ops,
            (Map.empty(0 \<mapsto> (-1, 11), 1 \<mapsto> (19, 31), 0 \<mapsto> (11, 28)))(1 := None)) \<and>
   Query (spec_tree_ops interval_geometry) after_scan_ops (25, 26) 0 = [0] \<and>
   set (Query (spec_tree_ops interval_geometry) after_scan_ops (25, 26) 0)
     = {proxyId. \<exists>fat.
          ((Map.empty(0 \<mapsto> (-1, 11), 1 \<mapsto> (19, 31), 0 \<mapsto> (11, 28)))(1 := None)) proxyId
            = Some fat \<and>
          geo_overlap interval_geometry fat (25, 26)}"
proof -
  have h: "scan_run interval_geometry (b2BroadPhase_new 2 [], Map.empty) scan_ops
     = Inr (after_scan_ops,
            (Map.empty(0 \<mapsto> (-1, 11), 1 \<mapsto> (19, 31), 0 \<mapsto> (11, 28)))(1 := None))"
    by (simp add: scan_ops_def after_scan_ops_def b2BroadPhase_new_def CreateProxy_def
          MoveProxy_def DestroyProxy_def BufferMove_def UnBufferMove_def UnBufferMove_loop_map
          spec_tree_ops_def spec_CreateProxy_def spec_MoveProxy_def spec_DestroyProxy_def
          spec_fresh_def interval_geometry_def e_nullProxy_def Let_def numeral_2_eq_2)
  have q: "Query (spec_tree_ops interval_geometry) after_scan_ops (25, 26) 0 = [0]"
    by code_simp
  show ?thesis
    using h q Query_exact [OF h, of "(25, 26)" 0] by blast
qed

text \<open>
  Claim C6. With the operations on the contact array as the spec describes them: after
  every sequence of contact creations, destructions and eligibility changes that the
  contact manager accepts, the contact array holds the live contacts, each once, and
  the contact at index \<open>i\<close> is eligible exactly when \<open>i\<close> lies in
  \<open>[GetToiBegin, GetNonToiBegin)\<close>. \<^verbatim>\<open>GetToiBegin\<close> is the start of the array,
  \<^verbatim>\<open>GetNonToiBegin\<close> is the start plus \<^verbatim>\<open>m_toiCount\<close>, and \<^verbatim>\<open>GetNonToiCount\<close> is the size
  of the array minus \<^verbatim>\<open>m_toiCount\<close> for an array whose size fits 32 bits.
\<close>

theorem contact_array_partitioned:
  assumes "contact_run b2ContactManager_new ops = Inr s"
  shows "set (m_contacts s) = fst (contact_ref ops) \<and>
         distinct (m_contacts s) \<and>
         m_toiCount s \<le> length (m_contacts s) \<and>
         (\<forall>i < length (m_contacts s).
            snd (contact_ref ops) (m_contacts s ! i) \<longleftrightarrow> GetToiBegin s \<le> i \<and> i < GetNonToiBegin s) \<and>
         GetToiBegin s = 0 \<and>
         GetNonToiBegin s = GetToiBegin s + m_toiCount s \<and>
         (length (m_contacts s) < 2 ^ 32 \<longrightarrow>
            GetNonToiCount s = length (m_contacts s) - m_toiCount s \<and>
            GetNonToiBegin s + GetNonToiCount s = length (m_contacts s))"
proof -
  have "toi_partitioned (b2ContactManager_new :: 'a b2ContactManager)"
    by (simp add: toi_partitioned_def b2ContactManager_new_def)
  moreover have "contact_agrees (b2ContactManager_new :: 'a b2ContactManager) ({}, \<lambda>c. False)"
    by (simp add: contact_agrees_def b2ContactManager_new_def)
  ultimately have "toi_partitioned s" and ag: "contact_agrees s (contact_ref ops)"
    using contact_run_invariant [OF assms] by (simp_all add: contact_ref_def)
  then have inv: "distinct (m_contacts s)" "m_toiCount s \<le> length (m_contacts s)"
    "\<forall>i < length (m_contacts s). toiCandidate s (m_contacts s ! i) \<longleftrightarrow> i < m_toiCount s"
    by (simp_all add: toi_partitioned_nth)
  have "GetNonToiCount s = length (m_contacts s) - m_toiCount s"
    if "length (m_contacts s) < 2 ^ 32"
  proof -
    have "length (m_contacts s) + 2 ^ 32 - m_toiCount s
        = (length (m_contacts s) - m_toiCount s) + 2 ^ 32"
      using inv(2) by simp
    moreover have "length (m_contacts s) - m_toiCount s < 2 ^ 32"
      using that by simp
    ultimately show ?thesis
      unfolding GetNonToiCount_def by (simp only: mod_add_self2 mod_less)
  qed
  moreover have "set (m_contacts s) = fst (contact_ref ops)"
    and "toiCandidate s = snd (contact_ref ops)"
    using ag by (simp_all add: contact_agrees_def)
  ultimately show ?thesis
    using inv by (simp add: GetToiBegin_def GetNonToiBegin_def)
qed

theorem contact_array_partitioned_witness:
  "\<exists>s. contact_run b2ContactManager_new contact_ops_example = Inr s \<and>
        m_contacts s = [1, 3] \<and> m_toiCount s = 1 \<and>
        set (m_contacts s) = fst (contact_ref contact_ops_example) \<and>
        GetNonToiBegin s = 1 \<and> GetNonToiCount s = 1"
proof -
  have v: "\<not> isl (contact_run b2ContactManager_new contact_ops_example) \<and>
      m_contacts (projr (contact_run b2ContactManager_new contact_ops_example)) = [1, 3] \<and>
      m_toiCount (projr (contact_run b2ContactManager_new contact_ops_example)) = 1"
    by code_simp
  then obtain s where s: "contact_run b2ContactManager_new contact_ops_example = Inr s"
    by (cases "contact_run b2ContactManager_new contact_ops_example") auto
  with v have m: "m_contacts s = [1, 3]" "m_toiCount s = 1"
    by simp_all
  from contact_array_partitioned [OF s] m
  have "set (m_contacts s) = fst (contact_ref contact_ops_example)"
    and "GetNonToiBegin s = 1" and "GetNonToiCount s = 1"
    by simp_all
  with s m show ?thesis
    by blast
qed

end
